theory Spec2Isabelle
  imports Main "HOL-Library.Multiset" "HOL-Library.AList" "HOL-Library.List_Lexorder"
    "HOL-Library.Char_ord"
begin

section \<open>Data model of \<open>tool.py\<close>\<close>

text \<open>
  The tool keeps every device as a Python dictionary produced by \<open>parse_config\<close>.
  The dictionaries have a fixed set of keys, so they are records here.  A value that
  is \<open>None\<close> in Python is \<open>None\<close> here; Python integers are \<open>int\<close>; strings are
  \<open>string\<close>, compared by code point as Python compares them.
\<close>

datatype error = KeyError | ValueError

datatype device_kind = Router | Switch

datatype protocol = OSPF | BGP

record interface =
  name :: string
  ip :: "string option"
  netmask :: "string option"
  vlan :: "string option"
  mtu :: int
  bw :: int
  connects_to :: "(string \<times> string) option"

record config =
  hostname :: string
  device_type :: device_kind
  interfaces :: "interface list"
  vlans :: "(string \<times> string) list"
  routes :: "(string \<times> string \<times> string) list"
  protocols :: "protocol list"
  default_gateway :: "string option"
  asn :: "int option"

text \<open>
  \<open>parsed\<close> is a dictionary from the device name to its record.  Python dictionaries
  are iterated in insertion order, so it is an association list; \<open>parsed[a]\<close> is
  \<open>map_of\<close>, and raises \<open>KeyError\<close> on a missing key.
\<close>

type_synonym node = string
type_synonym parsed = "(node \<times> config) list"

text \<open>A Link is the tuple \<open>(a, a_if, b, b_if)\<close> stored in an edge's \<open>links\<close> set.\<close>

type_synonym link = "node \<times> string \<times> node \<times> string"

record node_attrs =
  na_device_type :: device_kind
  na_protocols :: "protocol list"
  na_asn :: "int option"

text \<open>
  The attribute dictionary of an edge.  \<open>links\<close> is a Python set: it is kept as a
  list without duplicates (the order in which Python iterates a set is unspecified, and
  no statement below depends on it).  \<open>capacity_kbps\<close> and \<open>mtus\<close> are absent until
  the annotation loop of \<open>build_topology\<close> stores them.
\<close>

record edge_data =
  links :: "link list"
  capacity_kbps :: "int option"
  mtus :: "(int \<times> int) list option"

text \<open>
  \<open>nx.Graph\<close>: an undirected graph without parallel edges (self-loops are allowed).
  Nodes and edges are kept in insertion order, as the library's dictionaries keep them.
  An edge is stored once, under the orientation of its first \<open>add_edge\<close>, and is found
  under both orientations.  A node that \<open>add_edge\<close> creates has no attributes.
\<close>

record graph =
  g_nodes :: "(node \<times> node_attrs option) list"
  g_edges :: "((node \<times> node) \<times> edge_data) list"

section \<open>Errors as values\<close>

fun fold_r :: "('a \<Rightarrow> 's \<Rightarrow> error + 's) \<Rightarrow> 'a list \<Rightarrow> 's \<Rightarrow> error + 's" where
  "fold_r f [] s = Inr s"
| "fold_r f (x # xs) s = (case f x s of Inl e \<Rightarrow> Inl e | Inr s' \<Rightarrow> fold_r f xs s')"

fun map_r :: "('a \<Rightarrow> error + 'b) \<Rightarrow> 'a list \<Rightarrow> error + 'b list" where
  "map_r f [] = Inr []"
| "map_r f (x # xs) =
     (case f x of Inl e \<Rightarrow> Inl e
      | Inr y \<Rightarrow> (case map_r f xs of Inl e \<Rightarrow> Inl e | Inr ys \<Rightarrow> Inr (y # ys)))"

definition lookup_parsed :: "parsed \<Rightarrow> node \<Rightarrow> error + config" where
  "lookup_parsed parsed a = (case map_of parsed a of None \<Rightarrow> Inl KeyError | Some d \<Rightarrow> Inr d)"

section \<open>The operations of \<open>nx.Graph\<close> that the tool calls\<close>

definition empty_graph :: graph where
  "empty_graph = \<lparr>g_nodes = [], g_edges = []\<rparr>"

definition nodes :: "graph \<Rightarrow> node list" where
  "nodes G = map fst (g_nodes G)"

definition same_edge :: "node \<times> node \<Rightarrow> node \<times> node \<Rightarrow> bool" where
  "same_edge p q = (p = q \<or> p = (snd q, fst q))"

definition has_edge :: "graph \<Rightarrow> node \<Rightarrow> node \<Rightarrow> bool" where
  "has_edge G a b = (\<exists>e \<in> set (g_edges G). same_edge (a, b) (fst e))"

text \<open>\<open>G.add_node(n, **attrs)\<close>: a new node is appended, an old one has its attributes replaced.\<close>

definition add_node :: "graph \<Rightarrow> node \<Rightarrow> node_attrs \<Rightarrow> graph" where
  "add_node G n at =
     (if n \<in> set (nodes G)
      then G\<lparr>g_nodes := map (\<lambda>(m, x). if m = n then (m, Some at) else (m, x)) (g_nodes G)\<rparr>
      else G\<lparr>g_nodes := g_nodes G @ [(n, Some at)]\<rparr>)"

definition touch_node :: "node \<Rightarrow> graph \<Rightarrow> graph" where
  "touch_node n G = (if n \<in> set (nodes G) then G else G\<lparr>g_nodes := g_nodes G @ [(n, None)]\<rparr>)"

definition edge_update :: "graph \<Rightarrow> node \<Rightarrow> node \<Rightarrow> (edge_data \<Rightarrow> edge_data) \<Rightarrow> graph" where
  "edge_update G a b f =
     G\<lparr>g_edges := map (\<lambda>(k, d). if same_edge (a, b) k then (k, f d) else (k, d)) (g_edges G)\<rparr>"

text \<open>
  \<open>G.add_edge(a, b, links=set())\<close>.  Both end points become nodes.  On a new edge the
  attribute dictionary is created with an empty \<open>links\<close>; on an edge that is already
  there the library updates the old dictionary with the given attributes, so \<open>links\<close>
  is replaced by the new empty set and the other attributes stay.
\<close>

definition add_edge :: "graph \<Rightarrow> node \<Rightarrow> node \<Rightarrow> graph" where
  "add_edge G a b =
     (let G' = touch_node b (touch_node a G) in
      if has_edge G' a b then edge_update G' a b (\<lambda>d. d\<lparr>links := []\<rparr>)
      else G'\<lparr>g_edges := g_edges G' @ [((a, b), \<lparr>links = [], capacity_kbps = None, mtus = None\<rparr>)]\<rparr>)"

text \<open>\<open>G.edges[a, b]["links"].add(l)\<close>: \<open>KeyError\<close> when there is no such edge.\<close>

definition add_link :: "graph \<Rightarrow> node \<Rightarrow> node \<Rightarrow> link \<Rightarrow> error + graph" where
  "add_link G a b l =
     (if has_edge G a b then Inr (edge_update G a b (\<lambda>d. d\<lparr>links := List.insert l (links d)\<rparr>))
      else Inl KeyError)"

text \<open>
  \<open>G.adj[n]\<close>: the neighbours of \<open>n\<close> with the edge dictionaries, in the order in which
  the edges at \<open>n\<close> were first added.  A self-loop appears once.
\<close>

definition adjacency :: "graph \<Rightarrow> node \<Rightarrow> (node \<times> edge_data) list" where
  "adjacency G n =
     concat (map (\<lambda>((u, v), d). if u = n then [(v, d)] else if v = n then [(u, d)] else [])
                 (g_edges G))"

text \<open>
  \<open>G.edges(data=True)\<close>: the library walks the nodes in order and reports, for each
  node \<open>n\<close>, the neighbours that have not themselves been walked yet, as \<open>(n, nbr, data)\<close>.
  So every edge is reported once, from its end point that comes first in node order.
\<close>

fun edges_from :: "graph \<Rightarrow> node list \<Rightarrow> node list \<Rightarrow> (node \<times> node \<times> edge_data) list" where
  "edges_from G seen [] = []"
| "edges_from G seen (n # ns) =
     map (\<lambda>(nbr, d). (n, nbr, d)) (filter (\<lambda>(nbr, d). nbr \<notin> set seen) (adjacency G n))
     @ edges_from G (n # seen) ns"

definition edges_data :: "graph \<Rightarrow> (node \<times> node \<times> edge_data) list" where
  "edges_data G = edges_from G [] (nodes G)"

definition edges :: "graph \<Rightarrow> (node \<times> node) list" where
  "edges G = map (\<lambda>(u, v, d). (u, v)) (edges_data G)"

section \<open>\<open>build_topology\<close>\<close>

text \<open>Python truthiness of an optional string: \<open>None\<close> and the empty string are false.\<close>

definition truthy :: "string option \<Rightarrow> bool" where
  "truthy s = (case s of None \<Rightarrow> False | Some x \<Rightarrow> x \<noteq> [])"

text \<open>\<open>s.split(".")\<close> and \<open>".".join(ws)\<close>.\<close>

fun split_on :: "char \<Rightarrow> string \<Rightarrow> string list" where
  "split_on c [] = [[]]"
| "split_on c (x # xs) =
     (if x = c then [] # split_on c xs
      else (let r = split_on c xs in (x # hd r) # tl r))"

fun join :: "string \<Rightarrow> string list \<Rightarrow> string" where
  "join sep [] = []"
| "join sep [w] = w"
| "join sep (w # ws) = w @ sep @ join sep ws"

definition prefix24 :: "string \<Rightarrow> string" where
  "prefix24 a = join ''.'' (take 3 (split_on (CHR ''.'') a))"

definition attrs_of :: "config \<Rightarrow> node_attrs" where
  "attrs_of data =
     \<lparr>na_device_type = device_type data, na_protocols = protocols data, na_asn = asn data\<rparr>"

definition add_nodes :: "parsed \<Rightarrow> graph \<Rightarrow> graph" where
  "add_nodes parsed G = foldl (\<lambda>G (n, data). add_node G n (attrs_of data)) G parsed"

text \<open>Pass 1 (lines 129-137): one step per interface of device \<open>a\<close>.\<close>

definition hint_step :: "parsed \<Rightarrow> node \<Rightarrow> interface \<Rightarrow> graph \<Rightarrow> error + graph" where
  "hint_step parsed a intf G =
     (case connects_to intf of
        None \<Rightarrow> Inr G
      | Some (b, b_if) \<Rightarrow>
          if b \<in> set (map fst parsed)
          then add_link (add_edge G a b) a b (a, name intf, b, b_if)
          else Inr G)"

definition explicit_pass :: "parsed \<Rightarrow> graph \<Rightarrow> error + graph" where
  "explicit_pass parsed G =
     fold_r (\<lambda>(a, data). fold_r (hint_step parsed a) (interfaces data)) parsed G"

text \<open>Pass 2 (lines 141-152).\<close>

type_synonym iface = "node \<times> string \<times> string \<times> int \<times> int"

definition iface_list :: "parsed \<Rightarrow> iface list" where
  "iface_list parsed =
     concat (map (\<lambda>(n, data).
        map (\<lambda>intf. (n, name intf, the (ip intf), mtu intf, bw intf))
            (filter (\<lambda>intf. truthy (ip intf)) (interfaces data))) parsed)"

text \<open>\<open>itertools.combinations(xs, 2)\<close>.\<close>

fun combinations2 :: "'a list \<Rightarrow> ('a \<times> 'a) list" where
  "combinations2 [] = []"
| "combinations2 (x # xs) = map (Pair x) xs @ combinations2 xs"

fun infer_step :: "iface \<times> iface \<Rightarrow> graph \<Rightarrow> error + graph" where
  "infer_step ((n1, i1, ip1, mtu1, bw1), (n2, i2, ip2, mtu2, bw2)) G =
     (if prefix24 ip1 = prefix24 ip2 \<and> n1 \<noteq> n2
      then add_link (if \<not> has_edge G n1 n2 then add_edge G n1 n2 else G) n1 n2 (n1, i1, n2, i2)
      else Inr G)"

definition inferred_pass :: "parsed \<Rightarrow> graph \<Rightarrow> error + graph" where
  "inferred_pass parsed G = fold_r infer_step (combinations2 (iface_list parsed)) G"

text \<open>
  The annotation loop (lines 155-172).  The bandwidth of a side is found by a loop
  without \<open>break\<close>, so the last interface of that name wins; the MTU is found by
  \<open>next\<close>, so the first one wins.
\<close>

definition resolve_bw :: "interface list \<Rightarrow> string \<Rightarrow> int" where
  "resolve_bw intfs nm = foldl (\<lambda>acc intf. if name intf = nm then bw intf else acc) 100000 intfs"

definition resolve_mtu :: "interface list \<Rightarrow> string \<Rightarrow> int" where
  "resolve_mtu intfs nm = (case filter (\<lambda>x. name x = nm) intfs of [] \<Rightarrow> 1500 | x # _ \<Rightarrow> mtu x)"

fun link_min_bw :: "parsed \<Rightarrow> link \<Rightarrow> error + int" where
  "link_min_bw parsed (a, ai, b, bi) =
     (case lookup_parsed parsed a of Inl e \<Rightarrow> Inl e
      | Inr da \<Rightarrow> (case lookup_parsed parsed b of Inl e \<Rightarrow> Inl e
      | Inr db \<Rightarrow> Inr (min (resolve_bw (interfaces da) ai) (resolve_bw (interfaces db) bi))))"

fun link_mtus :: "parsed \<Rightarrow> link \<Rightarrow> error + (int \<times> int)" where
  "link_mtus parsed (a, ai, b, bi) =
     (case lookup_parsed parsed a of Inl e \<Rightarrow> Inl e
      | Inr da \<Rightarrow> (case lookup_parsed parsed b of Inl e \<Rightarrow> Inl e
      | Inr db \<Rightarrow> Inr (resolve_mtu (interfaces da) ai, resolve_mtu (interfaces db) bi)))"

definition add_cap :: "parsed \<Rightarrow> link \<Rightarrow> int \<Rightarrow> error + int" where
  "add_cap parsed l cap = (case link_min_bw parsed l of Inl e \<Rightarrow> Inl e | Inr m \<Rightarrow> Inr (cap + m))"

fun annotate_edge :: "parsed \<Rightarrow> node \<times> node \<times> edge_data \<Rightarrow> graph \<Rightarrow> error + graph" where
  "annotate_edge parsed (u, v, d) G =
     (case fold_r (add_cap parsed) (links d) 0 of Inl e \<Rightarrow> Inl e
      | Inr cap \<Rightarrow> (case map_r (link_mtus parsed) (links d) of Inl e \<Rightarrow> Inl e
      | Inr ms \<Rightarrow> Inr (edge_update G u v
          (\<lambda>x. x\<lparr>capacity_kbps := Some (if cap \<noteq> 0 then cap else 100000), mtus := Some ms\<rparr>))))"

definition annotate :: "parsed \<Rightarrow> graph \<Rightarrow> error + graph" where
  "annotate parsed G = fold_r (annotate_edge parsed) (edges_data G) G"

definition build_topology :: "parsed \<Rightarrow> error + graph" where
  "build_topology parsed =
     (case explicit_pass parsed (add_nodes parsed empty_graph) of Inl e \<Rightarrow> Inl e
      | Inr G1 \<Rightarrow> (case inferred_pass parsed G1 of Inl e \<Rightarrow> Inl e
      | Inr G2 \<Rightarrow> annotate parsed G2))"

section \<open>\<open>detect_issues\<close>\<close>

datatype issue =
    DuplicateIp string "node list"
  | WrongVlanLabel node string string
  | GatewayMismatch node string
  | MtuMismatch string int int
  | NetworkLoops "node list list"
  | BgpRecommended string

text \<open>
  The keys of a \<open>Counter\<close>, in the order of their first occurrence, which is the
  order in which \<open>c.items()\<close> yields them.
\<close>

fun first_seen :: "'a list \<Rightarrow> 'a list" where
  "first_seen [] = []"
| "first_seen (x # xs) = x # filter (\<lambda>y. y \<noteq> x) (first_seen xs)"

definition counter_items :: "'a list \<Rightarrow> ('a \<times> nat) list" where
  "counter_items xs = map (\<lambda>k. (k, count_list xs k)) (first_seen xs)"

text \<open>Lines 178-186.  \<open>intf.get("vlan") or "no-vlan"\<close> is the middle component.\<close>

definition all_ips :: "parsed \<Rightarrow> (node \<times> string \<times> string) list" where
  "all_ips parsed =
     concat (map (\<lambda>(n, data).
        map (\<lambda>intf. (n, (if truthy (vlan intf) then the (vlan intf) else ''no-vlan''), the (ip intf)))
            (filter (\<lambda>intf. truthy (ip intf)) (interfaces data))) parsed)"

definition duplicate_ip_issues :: "parsed \<Rightarrow> issue list" where
  "duplicate_ip_issues parsed =
     (let ips = all_ips parsed in
      map (\<lambda>(a, cnt). DuplicateIp a (map fst (filter (\<lambda>x. snd (snd x) = a) ips)))
          (filter (\<lambda>(a, cnt). cnt > 1) (counter_items (map (\<lambda>x. snd (snd x)) ips))))"

text \<open>Lines 189-194.\<close>

definition wrong_vlan_issues :: "parsed \<Rightarrow> issue list" where
  "wrong_vlan_issues parsed =
     concat (map (\<lambda>(n, data).
        if device_type data = Switch
        then map (\<lambda>intf. WrongVlanLabel n (name intf) (the (vlan intf)))
               (filter (\<lambda>intf. truthy (vlan intf) \<and> the (vlan intf) \<notin> set (map fst (vlans data)))
                       (interfaces data))
        else []) parsed)"

text \<open>Lines 197-206.\<close>

definition gateway_issues :: "parsed \<Rightarrow> issue list" where
  "gateway_issues parsed =
     concat (map (\<lambda>(n, data).
        if truthy (default_gateway data)
        then (let gw = the (default_gateway data) in
              if (\<exists>intf \<in> set (interfaces data).
                    truthy (ip intf) \<and> prefix24 (the (ip intf)) = prefix24 gw)
              then [] else [GatewayMismatch n gw])
        else []) parsed)"

text \<open>Lines 209-212.  \<open>ed.get("mtus", [])\<close> is the empty list on an edge without the key.\<close>

definition mtu_issues :: "graph \<Rightarrow> issue list" where
  "mtu_issues G =
     concat (map (\<lambda>(u, v, ed).
        map (\<lambda>(ma, mb). MtuMismatch (u @ ''-'' @ v) ma mb)
            (filter (\<lambda>(ma, mb). ma \<noteq> mb) (case mtus ed of None \<Rightarrow> [] | Some ms \<Rightarrow> ms)))
        (edges_data G))"

text \<open>
  Lines 215-217.  \<open>nx.cycle_basis\<close> is a function of the graph library, not of the
  tool: it is the parameter \<open>cycle_basis\<close>.
\<close>

definition loop_issues :: "(graph \<Rightarrow> node list list) \<Rightarrow> graph \<Rightarrow> issue list" where
  "loop_issues cycle_basis G =
     (let cycles = cycle_basis G in if cycles \<noteq> [] then [NetworkLoops cycles] else [])"

text \<open>
  Lines 220-222.  \<open>if d.get("asn")\<close> is Python truthiness: it drops \<open>None\<close> and also
  the number 0.
\<close>

definition asns :: "parsed \<Rightarrow> int list" where
  "asns parsed =
     map (\<lambda>(n, d). the (asn d)) (filter (\<lambda>(n, d). asn d \<noteq> None \<and> asn d \<noteq> Some 0) parsed)"

definition bgp_issues :: "parsed \<Rightarrow> issue list" where
  "bgp_issues parsed =
     (if card (set (asns parsed)) > 1
      then [BgpRecommended ''Multiple autonomous systems detected''] else [])"

definition detect_issues :: "(graph \<Rightarrow> node list list) \<Rightarrow> parsed \<Rightarrow> graph \<Rightarrow> issue list" where
  "detect_issues cycle_basis parsed G =
     duplicate_ip_issues parsed @ wrong_vlan_issues parsed @ gateway_issues parsed
     @ mtu_issues G @ loop_issues cycle_basis G @ bgp_issues parsed"

section \<open>\<open>estimate_endpoint_demands\<close>\<close>

text \<open>
  \<open>edge_load\<close> is a dictionary from a pair of device names to the load: an
  association list in insertion order (\<open>AList.update\<close> replaces the value of an old key
  in place and appends a new key, as a Python dictionary does).

  The random source and \<open>nx.shortest_path\<close> are parameters: \<open>rnd i\<close> is what trial \<open>i\<close>
  draws (source, destination, demand), and \<open>shortest_path G s t\<close> is \<open>None\<close> where the
  library raises \<open>NetworkXNoPath\<close>.  \<open>random.sample(population, 2)\<close> raises \<open>ValueError\<close>
  on a population of fewer than two elements, whatever the random source.
\<close>

type_synonym edge_load = "((node \<times> node) \<times> int) list"

definition sorted_pair :: "node \<times> node \<Rightarrow> node \<times> node" where
  "sorted_pair e = (if fst e \<le> snd e then e else (snd e, fst e))"

definition load_get :: "edge_load \<Rightarrow> node \<times> node \<Rightarrow> int" where
  "load_get el e = (case map_of el e of None \<Rightarrow> 0 | Some x \<Rightarrow> x)"

definition add_demand :: "int \<Rightarrow> edge_load \<Rightarrow> node \<times> node \<Rightarrow> edge_load" where
  "add_demand demand el ab =
     (let e = sorted_pair ab in AList.update e (load_get el e + demand) el)"

definition add_path :: "node list \<Rightarrow> int \<Rightarrow> edge_load \<Rightarrow> edge_load" where
  "add_path path demand el = foldl (add_demand demand) el (zip path (tl path))"

definition trial ::
  "(graph \<Rightarrow> node \<Rightarrow> node \<Rightarrow> node list option) \<Rightarrow> (nat \<Rightarrow> node \<times> node \<times> int) \<Rightarrow> graph
     \<Rightarrow> nat \<Rightarrow> edge_load \<Rightarrow> error + edge_load" where
  "trial shortest_path rnd G i el =
     (if length (nodes G) < 2 then Inl ValueError
      else (case rnd i of (src, dst, demand) \<Rightarrow>
        (case shortest_path G src dst of
           None \<Rightarrow> Inr el
         | Some path \<Rightarrow> Inr (add_path path demand el))))"

definition estimate_endpoint_demands ::
  "(graph \<Rightarrow> node \<Rightarrow> node \<Rightarrow> node list option) \<Rightarrow> (nat \<Rightarrow> node \<times> node \<times> int) \<Rightarrow> graph
     \<Rightarrow> error + edge_load" where
  "estimate_endpoint_demands shortest_path rnd G =
     fold_r (trial shortest_path rnd G) [0..<6] (map (\<lambda>e. (e, 0)) (edges G))"

section \<open>Concrete inputs\<close>

text \<open>
  An interface and a router as \<open>parse_config\<close> produces them from a block that sets
  nothing: MTU 1500, bandwidth 100000, no address, no VLAN, no neighbour hint.
\<close>

definition plain_interface :: "string \<Rightarrow> interface" where
  "plain_interface n =
     \<lparr>name = n, ip = None, netmask = None, vlan = None, mtu = 1500, bw = 100000,
      connects_to = None\<rparr>"

definition plain_router :: "string \<Rightarrow> interface list \<Rightarrow> config" where
  "plain_router h ifs =
     \<lparr>hostname = h, device_type = Router, interfaces = ifs, vlans = [], routes = [],
      protocols = [], default_gateway = None, asn = None\<rparr>"

definition router_attrs :: "node_attrs" where
  "router_attrs = \<lparr>na_device_type = Router, na_protocols = [], na_asn = None\<rparr>"

text \<open>Two routers, each with one interface that names the other as its neighbour.\<close>

definition mutual_hints :: parsed where
  "mutual_hints =
     [(''R1'', plain_router ''R1'' [(plain_interface ''e0'')\<lparr>connects_to := Some (''R2'', ''e0'')\<rparr>]),
      (''R2'', plain_router ''R2'' [(plain_interface ''e0'')\<lparr>connects_to := Some (''R1'', ''e0'')\<rparr>])]"

text \<open>One router whose interface \<open>e0\<close> is described as going to its own interface \<open>e1\<close>.\<close>

definition self_hint :: parsed where
  "self_hint =
     [(''R1'', plain_router ''R1''
         [(plain_interface ''e0'')\<lparr>connects_to := Some (''R1'', ''e1'')\<rparr>, plain_interface ''e1''])]"

text \<open>A single router.\<close>

definition lone_router :: parsed where
  "lone_router = [(''R1'', plain_router ''R1'' [plain_interface ''e0''])]"

text \<open>
  Two routers joined by one hinted link, with \<open>R2\<close> before \<open>R1\<close> in the dictionary
  (the loader fills it in the order of \<open>os.listdir\<close>, which is arbitrary).
\<close>

definition r2_first :: parsed where
  "r2_first =
     [(''R2'', plain_router ''R2'' [(plain_interface ''e0'')\<lparr>connects_to := Some (''R1'', ''e0'')\<rparr>]),
      (''R1'', plain_router ''R1'' [plain_interface ''e0''])]"

text \<open>Two routers, one configured with \<open>router bgp 0\<close> and one with \<open>router bgp 65001\<close>.\<close>

definition asn_zero :: parsed where
  "asn_zero =
     [(''R1'', (plain_router ''R1'' [])\<lparr>protocols := [BGP], asn := Some 0\<rparr>),
      (''R2'', (plain_router ''R2'' [])\<lparr>protocols := [BGP], asn := Some 65001\<rparr>)]"

text \<open>One router with the same address on two of its interfaces.\<close>

definition same_address_twice :: parsed where
  "same_address_twice =
     [(''R1'', plain_router ''R1''
         [(plain_interface ''e0'')\<lparr>ip := Some ''10.0.0.1'', netmask := Some ''255.255.255.0''\<rparr>,
          (plain_interface ''e1'')\<lparr>ip := Some ''10.0.0.1'', netmask := Some ''255.255.255.0''\<rparr>])]"

text \<open>Two routers joined by one hinted link whose interface is configured with \<open>bandwidth 0\<close>.\<close>

definition zero_bandwidth :: parsed where
  "zero_bandwidth =
     [(''R1'', plain_router ''R1''
         [(plain_interface ''e0'')\<lparr>bw := 0, connects_to := Some (''R2'', ''e0'')\<rparr>]),
      (''R2'', plain_router ''R2'' [plain_interface ''e0''])]"

text \<open>
  Two routers on one /24 subnet, with MTU 1500 and MTU 9000, and no neighbour hint.
\<close>

definition mtu_1500_9000 :: parsed where
  "mtu_1500_9000 =
     [(''R1'', plain_router ''R1''
         [(plain_interface ''e0'')\<lparr>ip := Some ''10.0.0.1'', netmask := Some ''255.255.255.0''\<rparr>]),
      (''R2'', plain_router ''R2''
         [(plain_interface ''e0'')\<lparr>ip := Some ''10.0.0.2'', netmask := Some ''255.255.255.0'',
                                    mtu := 9000\<rparr>])]"

section \<open>Notions used in the statements\<close>

text \<open>
  The devices that use an address: one entry per interface that carries it, in the
  order of the configuration.
\<close>

definition address_users :: "parsed \<Rightarrow> string \<Rightarrow> node list" where
  "address_users parsed a =
     concat (map (\<lambda>(n, data). map (\<lambda>intf. n) (filter (\<lambda>intf. ip intf = Some a) (interfaces data)))
                 parsed)"

text \<open>
  The bandwidth and the MTU of one side of a Link, read off the configuration: the
  device's interface of that name, and the default (100000 kbps, 1500) when the device
  has no interface of that name.  Where a device has several interfaces of one name,
  the capacity loop keeps the last one and the MTU lookup the first one.
\<close>

definition side_bw :: "parsed \<Rightarrow> node \<Rightarrow> string \<Rightarrow> int" where
  "side_bw parsed a ai =
     (case map_of parsed a of
        None \<Rightarrow> 100000
      | Some data \<Rightarrow> (case filter (\<lambda>x. name x = ai) (interfaces data) of
                       [] \<Rightarrow> 100000
                     | x # xs \<Rightarrow> bw (last (x # xs))))"

definition side_mtu :: "parsed \<Rightarrow> node \<Rightarrow> string \<Rightarrow> int" where
  "side_mtu parsed a ai =
     (case map_of parsed a of
        None \<Rightarrow> 1500
      | Some data \<Rightarrow> (case filter (\<lambda>x. name x = ai) (interfaces data) of
                       [] \<Rightarrow> 1500
                     | x # xs \<Rightarrow> mtu x))"

definition link_bw :: "parsed \<Rightarrow> link \<Rightarrow> int" where
  "link_bw parsed l = (case l of (a, ai, b, bi) \<Rightarrow> min (side_bw parsed a ai) (side_bw parsed b bi))"

definition link_mtu_pair :: "parsed \<Rightarrow> link \<Rightarrow> int \<times> int" where
  "link_mtu_pair parsed l = (case l of (a, ai, b, bi) \<Rightarrow> (side_mtu parsed a ai, side_mtu parsed b bi))"

text \<open>All Link tuples of a graph, and the label \<open>u-v\<close> of the edge that holds a given one.\<close>

definition graph_links :: "graph \<Rightarrow> link set" where
  "graph_links G = (\<Union>e \<in> set (g_edges G). set (links (snd e)))"

definition link_label :: "graph \<Rightarrow> link \<Rightarrow> string" where
  "link_label G l =
     (case filter (\<lambda>(u, v, d). l \<in> set (links d)) (edges_data G) of
        [] \<Rightarrow> []
      | (u, v, d) # _ \<Rightarrow> u @ ''-'' @ v)"

fun is_mtu_mismatch :: "issue \<Rightarrow> bool" where
  "is_mtu_mismatch (MtuMismatch lbl ma mb) = True"
| "is_mtu_mismatch _ = False"

section \<open>The invariant of the graph under construction\<close>

text \<open>
  Nodes are not repeated; an edge is stored once for its unordered pair of end points,
  which are nodes; a link set has no duplicates, and a Link tuple \<open>(a, _, b, _)\<close> sits on
  the edge between \<open>a\<close> and \<open>b\<close>, both of them devices of the input.
\<close>

definition unord :: "node \<times> node \<Rightarrow> node set" where
  "unord e = {fst e, snd e}"

definition link_ok :: "parsed \<Rightarrow> node \<times> node \<Rightarrow> link \<Rightarrow> bool" where
  "link_ok parsed k l =
     (case l of (a, ai, b, bi) \<Rightarrow>
        a \<in> set (map fst parsed) \<and> b \<in> set (map fst parsed) \<and> same_edge (a, b) k)"

definition wf_graph :: "parsed \<Rightarrow> graph \<Rightarrow> bool" where
  "wf_graph parsed G \<longleftrightarrow>
     distinct (nodes G) \<and> distinct (map (\<lambda>e. unord (fst e)) (g_edges G)) \<and>
     (\<forall>e \<in> set (g_edges G).
        fst (fst e) \<in> set (nodes G) \<and> snd (fst e) \<in> set (nodes G) \<and> distinct (links (snd e)) \<and>
        (\<forall>l \<in> set (links (snd e)). link_ok parsed (fst e) l))"

text \<open>What the annotation loop stores on an edge.\<close>

definition annotated :: "parsed \<Rightarrow> edge_data \<Rightarrow> edge_data" where
  "annotated parsed d =
     d\<lparr>capacity_kbps :=
         Some (if sum_list (map (link_bw parsed) (links d)) \<noteq> 0
               then sum_list (map (link_bw parsed) (links d)) else 100000),
       mtus := Some (map (link_mtu_pair parsed) (links d))\<rparr>"

section \<open>Cycles\<close>

text \<open>
  Modelled from the spec: \<open>nx.cycle_basis\<close>, which \<open>detect_issues\<close> calls, is a function
  of the networkx library and is not part of the tool's source.  Section 4.2 of the
  spec says that the detector computes "a cycle basis of the graph (treated as
  undirected, attributes ignored)", each cycle being "an ordered sequence of device
  names".  The model computes the fundamental cycles of a spanning forest.  The edges
  are taken in insertion order; an edge whose end points no forest path joins yet is
  added to the forest; an edge whose end points are already joined closes a cycle, which
  is reported as the nodes of the forest path between its end points (a self-loop as the
  cycle of one node).  \<open>paths F u v\<close> lists the paths from \<open>u\<close> to \<open>v\<close> that use each
  edge of \<open>F\<close> at most once.
\<close>

function paths :: "(node \<times> node) list \<Rightarrow> node \<Rightarrow> node \<Rightarrow> node list list" where
  "paths F u v =
     (if u = v then [[u]]
      else concat (map (\<lambda>e. if fst e = u then map (Cons u) (paths (remove1 e F) (snd e) v)
                            else if snd e = u then map (Cons u) (paths (remove1 e F) (fst e) v)
                            else []) F))"
  by pat_completeness auto
termination
proof (relation "measure (\<lambda>(F, u, v). length F)")
  show "wf (measure (\<lambda>(F, u, v). length F))" by simp
next
  fix F :: "(node \<times> node) list" and u v :: node and x
  assume "x \<in> set F"
  then have "0 < length F" by (rule length_pos_if_in_set)
  with \<open>x \<in> set F\<close> show "((remove1 x F, snd x, v), F, u, v) \<in> measure (\<lambda>(F, u, v). length F)"
    by (simp add: length_remove1)
next
  fix F :: "(node \<times> node) list" and u v :: node and x
  assume "x \<in> set F"
  then have "0 < length F" by (rule length_pos_if_in_set)
  with \<open>x \<in> set F\<close> show "((remove1 x F, fst x, v), F, u, v) \<in> measure (\<lambda>(F, u, v). length F)"
    by (simp add: length_remove1)
qed

declare paths.simps [simp del]

fun fundamental_cycles :: "(node \<times> node) list \<Rightarrow> (node \<times> node) list \<Rightarrow> node list list" where
  "fundamental_cycles F [] = []"
| "fundamental_cycles F (e # es) =
     (case paths F (fst e) (snd e) of
        [] \<Rightarrow> fundamental_cycles (e # F) es
      | p # ps \<Rightarrow> p # fundamental_cycles F es)"

definition nx_cycle_basis :: "graph \<Rightarrow> node list list" where
  "nx_cycle_basis G = fundamental_cycles [] (map fst (g_edges G))"

text \<open>
  A graph contains a cycle when it has a closed walk of at least one edge that uses no
  edge twice, edges being taken without direction.  \<open>walk_from a p b\<close>: the list \<open>p\<close> of
  directed steps leads from \<open>a\<close> to \<open>b\<close>.
\<close>

primrec walk_from :: "node \<Rightarrow> (node \<times> node) list \<Rightarrow> node \<Rightarrow> bool" where
  "walk_from a [] b = (a = b)"
| "walk_from a (e # p) b = (fst e = a \<and> walk_from (snd e) p b)"

definition has_cycle :: "graph \<Rightarrow> bool" where
  "has_cycle G \<longleftrightarrow>
     (\<exists>a p. p \<noteq> [] \<and> walk_from a p a \<and> distinct (map unord p) \<and>
            (\<forall>e \<in> set p. has_edge G (fst e) (snd e)))"

text \<open>The same notion on a set of edges, for the proofs.\<close>

definition symcl :: "(node \<times> node) set \<Rightarrow> (node \<times> node) set" where
  "symcl E = E \<union> E\<inverse>"

definition cyclic :: "(node \<times> node) set \<Rightarrow> bool" where
  "cyclic E \<longleftrightarrow> (\<exists>a p. p \<noteq> [] \<and> walk_from a p a \<and> distinct (map unord p) \<and> set p \<subseteq> symcl E)"

text \<open>Three routers in a ring, each naming its two ring neighbours.\<close>

definition ring3 :: parsed where
  "ring3 =
     [(''R1'', plain_router ''R1''
         [(plain_interface ''e0'')\<lparr>connects_to := Some (''R2'', ''e1'')\<rparr>,
          (plain_interface ''e1'')\<lparr>connects_to := Some (''R3'', ''e0'')\<rparr>]),
      (''R2'', plain_router ''R2''
         [(plain_interface ''e0'')\<lparr>connects_to := Some (''R3'', ''e1'')\<rparr>,
          (plain_interface ''e1'')\<lparr>connects_to := Some (''R1'', ''e0'')\<rparr>]),
      (''R3'', plain_router ''R3''
         [(plain_interface ''e0'')\<lparr>connects_to := Some (''R1'', ''e1'')\<rparr>,
          (plain_interface ''e1'')\<lparr>connects_to := Some (''R2'', ''e0'')\<rparr>])]"

section \<open>Pass 1 and repeated hints on one edge\<close>

text \<open>
  C1. Claim: after pass 1 the link set of an edge holds one Link tuple per neighbour
  hint whose peer exists, and the tuples found earlier on the same edge are preserved.
  On the code this fails: pass 1 calls \<open>G.add_edge(a, b, links=set())\<close> for every hint,
  and on an edge that is already there this replaces the link set by an empty one.
  With two routers that name each other, pass 1 ends with the single tuple of the hint
  of \<open>R2\<close>; the tuple \<open>(R1, e0, R2, e0)\<close> of the hint of \<open>R1\<close> is gone.  (Pass 2 guards
  the same call with \<open>if not G.has_edge(n1, n2)\<close>.)
\<close>

theorem explicit_pass_mutual_hints:
  "explicit_pass mutual_hints (add_nodes mutual_hints empty_graph) =
     Inr \<lparr>g_nodes = [(''R1'', Some router_attrs), (''R2'', Some router_attrs)],
          g_edges = [((''R1'', ''R2''),
                      \<lparr>links = [(''R2'', ''e0'', ''R1'', ''e0'')],
                       capacity_kbps = None, mtus = None\<rparr>)]\<rparr>"
  by code_simp

section \<open>Self-loops\<close>

text \<open>
  C9. Claim: the built graph has no edge from a device to itself, whether the link comes
  from a neighbour hint or from a shared subnet.  On the code this fails for hints:
  pass 1 checks only that the peer is a known device, not that it is another device
  (pass 2 checks \<open>n1 != n2\<close>).  A router whose interface names the router itself as
  the neighbour gets the edge \<open>(R1, R1)\<close>.
\<close>

theorem build_topology_self_hint:
  "build_topology self_hint =
     Inr \<lparr>g_nodes = [(''R1'', Some router_attrs)],
          g_edges = [((''R1'', ''R1''),
                      \<lparr>links = [(''R1'', ''e0'', ''R1'', ''e1'')],
                       capacity_kbps = Some 100000, mtus = Some [(1500, 1500)]\<rparr>)]\<rparr>"
  by code_simp

section \<open>The demand simulator\<close>

text \<open>
  C5. Claim: no operation of the core raises a fatal error on any input; in the demand
  simulator a trial without a path is dropped and the run completes.  On the code this
  fails before any path is looked for: every trial starts with
  \<open>random.sample(list(G.nodes()), 2)\<close>, which raises \<open>ValueError\<close> when the graph has
  fewer than two nodes.  With a single device the topology is built, and the simulator
  then ends in \<open>ValueError\<close> whatever the random source and the path function are.
\<close>

theorem estimate_endpoint_demands_lone_router:
  "build_topology lone_router = Inr \<lparr>g_nodes = [(''R1'', Some router_attrs)], g_edges = []\<rparr> \<and>
   estimate_endpoint_demands shortest_path rnd
       \<lparr>g_nodes = [(''R1'', Some router_attrs)], g_edges = []\<rparr> = Inl ValueError"
proof
  show "build_topology lone_router = Inr \<lparr>g_nodes = [(''R1'', Some router_attrs)], g_edges = []\<rparr>"
    by code_simp
  show "estimate_endpoint_demands shortest_path rnd
       \<lparr>g_nodes = [(''R1'', Some router_attrs)], g_edges = []\<rparr> = Inl ValueError"
    by (simp add: estimate_endpoint_demands_def trial_def nodes_def upt_rec)
qed

text \<open>
  C7. Claim: every key of the returned EdgeLoad is a sorted pair of device names, and a
  demand lands in the same bucket whichever way the edge is walked.  On the code the
  first half fails: the dictionary is initialised with the pairs of \<open>G.edges()\<close> as the
  graph reports them, and only the keys written along a path go through \<open>sorted\<close>.
  With \<open>R2\<close> before \<open>R1\<close> in the input the graph reports the edge as \<open>(R2, R1)\<close>; six
  trials from \<open>R2\<close> to \<open>R1\<close> with demand 1000 leave the unsorted key \<open>(R2, R1)\<close> at load
  0 beside the sorted key \<open>(R1, R2)\<close> with the whole load.
\<close>

theorem estimate_endpoint_demands_r2_first:
  "build_topology r2_first =
     Inr \<lparr>g_nodes = [(''R2'', Some router_attrs), (''R1'', Some router_attrs)],
          g_edges = [((''R2'', ''R1''),
                      \<lparr>links = [(''R2'', ''e0'', ''R1'', ''e0'')],
                       capacity_kbps = Some 100000, mtus = Some [(1500, 1500)]\<rparr>)]\<rparr> \<and>
   estimate_endpoint_demands (\<lambda>G s t. Some [s, t]) (\<lambda>i. (''R2'', ''R1'', 1000))
       \<lparr>g_nodes = [(''R2'', Some router_attrs), (''R1'', Some router_attrs)],
        g_edges = [((''R2'', ''R1''),
                    \<lparr>links = [(''R2'', ''e0'', ''R1'', ''e0'')],
                     capacity_kbps = Some 100000, mtus = Some [(1500, 1500)]\<rparr>)]\<rparr>
     = Inr [((''R2'', ''R1''), 0), ((''R1'', ''R2''), 6000)] \<and>
   sorted_pair (''R2'', ''R1'') \<noteq> (''R2'', ''R1'')"
  by code_simp

section \<open>The issue detector\<close>

lemma no_bgp_in_duplicate_ip: "BgpRecommended r \<notin> set (duplicate_ip_issues p)"
  by (auto simp: duplicate_ip_issues_def Let_def)

lemma no_bgp_in_wrong_vlan: "BgpRecommended r \<notin> set (wrong_vlan_issues p)"
  by (auto simp: wrong_vlan_issues_def split: if_splits)

lemma no_bgp_in_gateway: "BgpRecommended r \<notin> set (gateway_issues p)"
  by (auto simp: gateway_issues_def Let_def split: if_splits)

lemma no_bgp_in_mtu: "BgpRecommended r \<notin> set (mtu_issues G)"
  by (auto simp: mtu_issues_def)

lemma no_bgp_in_loops: "BgpRecommended r \<notin> set (loop_issues cb G)"
  by (auto simp: loop_issues_def Let_def)

text \<open>
  C8. Claim: one \<open>bgp_recommended\<close> Issue is emitted if and only if more than one
  distinct ASN value appears across the devices.  On the code this fails when one of
  the values is 0: the list of ASNs is built with \<open>if d.get("asn")\<close>, which drops the
  number 0 together with \<open>None\<close>.  Two devices with ASN 0 and ASN 65001 carry two
  distinct values, and no \<open>bgp_recommended\<close> Issue is emitted, whatever the graph and
  the cycle basis are.
\<close>

theorem detect_issues_asn_zero:
  "map (\<lambda>(n, d). asn d) asn_zero = [Some 0, Some 65001] \<and>
   BgpRecommended r \<notin> set (detect_issues cycle_basis asn_zero G)"
proof
  show "map (\<lambda>(n, d). asn d) asn_zero = [Some 0, Some 65001]"
    by code_simp
  have "asns asn_zero = [65001]"
    by code_simp
  then have "bgp_issues asn_zero = []"
    by (simp add: bgp_issues_def)
  then show "BgpRecommended r \<notin> set (detect_issues cycle_basis asn_zero G)"
    by (simp add: detect_issues_def no_bgp_in_duplicate_ip no_bgp_in_wrong_vlan
        no_bgp_in_gateway no_bgp_in_mtu no_bgp_in_loops)
qed

lemma set_first_seen: "set (first_seen xs) = set xs"
  by (induction xs) auto

lemma distinct_first_seen: "distinct (first_seen xs)"
  by (induction xs) (auto simp: set_first_seen)

lemma count_list_map_distinct:
  "distinct ks \<Longrightarrow> (\<And>k. g k = y \<Longrightarrow> k = k0) \<Longrightarrow>
     count_list (map g ks) y = (if k0 \<in> set ks \<and> g k0 = y then 1 else 0)"
  by (induction ks) auto

lemma all_ips_users:
  "a \<noteq> [] \<Longrightarrow> map fst (filter (\<lambda>x. snd (snd x) = a) (all_ips parsed)) = address_users parsed a"
proof (induction parsed)
  case Nil
  then show ?case by (simp add: all_ips_def address_users_def)
next
  case (Cons p parsed)
  obtain n data where p: "p = (n, data)" by (cases p)
  have "map fst (filter (\<lambda>x. snd (snd x) = a)
          (map (\<lambda>intf. (n, (if truthy (vlan intf) then the (vlan intf) else ''no-vlan''), the (ip intf)))
             (filter (\<lambda>intf. truthy (ip intf)) ifs)))
        = map (\<lambda>intf. n) (filter (\<lambda>intf. ip intf = Some a) ifs)" for ifs
    using Cons.prems by (induction ifs) (auto simp: truthy_def split: option.splits)
  with Cons show ?case
    by (simp add: all_ips_def address_users_def p)
qed

lemma all_ips_nonempty: "x \<in> set (all_ips parsed) \<Longrightarrow> snd (snd x) \<noteq> []"
  by (auto simp: all_ips_def truthy_def split: option.splits)

lemma count_list_filter_length: "count_list xs a = length (filter (\<lambda>x. x = a) xs)"
  by (induction xs) auto

lemma count_ips:
  "a \<noteq> [] \<Longrightarrow> count_list (map (\<lambda>x. snd (snd x)) (all_ips parsed)) a = length (address_users parsed a)"
proof -
  assume a: "a \<noteq> []"
  have "count_list (map (\<lambda>x. snd (snd x)) (all_ips parsed)) a
      = length (filter (\<lambda>x. snd (snd x) = a) (all_ips parsed))"
    by (simp add: count_list_filter_length filter_map comp_def)
  also have "\<dots> = length (map fst (filter (\<lambda>x. snd (snd x) = a) (all_ips parsed)))"
    by simp
  also have "\<dots> = length (address_users parsed a)"
    using all_ips_users[OF a, of parsed] by simp
  finally show ?thesis .
qed

lemma count_duplicate_ip_issues:
  "count_list (duplicate_ip_issues parsed) (DuplicateIp a w) =
     (if a \<noteq> [] \<and> 2 \<le> length (address_users parsed a) \<and> w = address_users parsed a then 1 else 0)"
proof -
  define al where "al = map (\<lambda>x. snd (snd x)) (all_ips parsed)"
  define g where "g = (\<lambda>k. DuplicateIp k (map fst (filter (\<lambda>x. snd (snd x) = k) (all_ips parsed))))"
  define ks where "ks = filter (\<lambda>k. count_list al k > 1) (first_seen al)"
  have eq: "duplicate_ip_issues parsed = map g ks"
    by (simp add: duplicate_ip_issues_def Let_def counter_items_def filter_map comp_def
        al_def g_def ks_def)
  have d: "distinct ks"
    by (simp add: ks_def distinct_first_seen)
  have "count_list (map g ks) (DuplicateIp a w) = (if a \<in> set ks \<and> g a = DuplicateIp a w then 1 else 0)"
    by (rule count_list_map_distinct[OF d]) (simp add: g_def)
  then have c: "count_list (duplicate_ip_issues parsed) (DuplicateIp a w)
      = (if a \<in> set ks \<and> g a = DuplicateIp a w then 1 else 0)"
    by (simp only: eq)
  show ?thesis
  proof (cases "a = []")
    case True
    have "a \<notin> set al"
      using all_ips_nonempty[of _ parsed] True unfolding al_def by fastforce
    then have "a \<notin> set ks"
      by (simp add: ks_def set_first_seen)
    with True c show ?thesis by simp
  next
    case False
    have cnt: "count_list al a = length (address_users parsed a)"
      using count_ips[OF False, of parsed] by (simp add: al_def)
    have "1 < count_list al a \<Longrightarrow> a \<in> set al"
      using count_list_0_iff[of al a] by auto
    then have m: "a \<in> set ks \<longleftrightarrow> 2 \<le> length (address_users parsed a)"
      using cnt by (auto simp: ks_def set_first_seen)
    have "g a = DuplicateIp a w \<longleftrightarrow> w = address_users parsed a"
      using all_ips_users[OF False, of parsed] by (auto simp: g_def)
    with False c m show ?thesis by simp
  qed
qed

lemma no_dup_in_wrong_vlan: "count_list (wrong_vlan_issues p) (DuplicateIp a w) = 0"
  by (auto simp: count_list_0_iff wrong_vlan_issues_def split: if_splits)
lemma no_dup_in_gateway: "count_list (gateway_issues p) (DuplicateIp a w) = 0"
  by (auto simp: count_list_0_iff gateway_issues_def Let_def split: if_splits)
lemma no_dup_in_mtu: "count_list (mtu_issues G) (DuplicateIp a w) = 0"
  by (auto simp: count_list_0_iff mtu_issues_def)
lemma no_dup_in_loops: "count_list (loop_issues cb G) (DuplicateIp a w) = 0"
  by (auto simp: count_list_0_iff loop_issues_def Let_def)
lemma no_dup_in_bgp: "count_list (bgp_issues p) (DuplicateIp a w) = 0"
  by (auto simp: count_list_0_iff bgp_issues_def)

text \<open>
  C3, as the code has it.  A \<open>duplicate_ip\<close> Issue is emitted for an address exactly when
  the (non-empty) address is carried by at least two interfaces, on the same device or
  on different ones and whatever their VLANs; there is exactly one such Issue, and its
  device list has one entry per interface that carries the address, so it names every
  device that uses it.
\<close>

theorem duplicate_ip_per_interface:
  "count_list (detect_issues cycle_basis parsed G) (DuplicateIp a w) =
     (if a \<noteq> [] \<and> 2 \<le> length (address_users parsed a) \<and> w = address_users parsed a then 1 else 0)"
  by (simp only: detect_issues_def count_list_append count_duplicate_ip_issues no_dup_in_wrong_vlan
       no_dup_in_gateway no_dup_in_mtu no_dup_in_loops no_dup_in_bgp add_0_right)

text \<open>
  C3 as stated asks for two distinct devices.  One router with the address 10.0.0.1 on
  two of its interfaces is a single device, and the detector emits the Issue for it.
\<close>

theorem duplicate_ip_same_device:
  "build_topology same_address_twice = Inr \<lparr>g_nodes = [(''R1'', Some router_attrs)], g_edges = []\<rparr> \<and>
   detect_issues (\<lambda>G. []) same_address_twice \<lparr>g_nodes = [(''R1'', Some router_attrs)], g_edges = []\<rparr>
     = [DuplicateIp ''10.0.0.1'' [''R1'', ''R1'']] \<and>
   remdups (address_users same_address_twice ''10.0.0.1'') = [''R1'']"
  by code_simp

section \<open>The invariant is kept by every step of the construction\<close>

lemma same_edge_unord: "same_edge p q \<longleftrightarrow> unord p = unord q"
  by (cases p; cases q) (auto simp: same_edge_def unord_def doubleton_eq_iff)

lemma fold_r_inv:
  assumes "P s" and "\<And>x s. x \<in> set xs \<Longrightarrow> P s \<Longrightarrow> \<exists>s'. f x s = Inr s' \<and> P s'"
  shows "\<exists>s'. fold_r f xs s = Inr s' \<and> P s'"
  using assms
proof (induction xs arbitrary: s)
  case Nil
  then show ?case by simp
next
  case (Cons x xs)
  from Cons.prems(2)[of x s] Cons.prems(1) obtain s1 where s1: "f x s = Inr s1" "P s1"
    by auto
  have "\<exists>s'. fold_r f xs s1 = Inr s' \<and> P s'"
    by (rule Cons.IH[OF s1(2)]) (use Cons.prems(2) in auto)
  with s1 show ?case by simp
qed

lemma g_edges_edge_update:
  "g_edges (edge_update G a b f) =
     map (\<lambda>e. (fst e, if same_edge (a, b) (fst e) then f (snd e) else snd e)) (g_edges G)"
  by (simp add: edge_update_def case_prod_beta if_distrib[of "Pair _"] cong: if_cong)

lemma nodes_edge_update [simp]: "nodes (edge_update G a b f) = nodes G"
  by (simp add: edge_update_def nodes_def)

lemma keys_edge_update [simp]: "map fst (g_edges (edge_update G a b f)) = map fst (g_edges G)"
  by (simp add: g_edges_edge_update comp_def)

lemma unord_keys_edge_update [simp]:
  "map (\<lambda>e. unord (fst e)) (g_edges (edge_update G a b f)) = map (\<lambda>e. unord (fst e)) (g_edges G)"
  by (simp add: g_edges_edge_update comp_def)

lemma in_edge_update:
  "e' \<in> set (g_edges (edge_update G a b f)) \<longleftrightarrow>
     (\<exists>e \<in> set (g_edges G). e' = (fst e, if same_edge (a, b) (fst e) then f (snd e) else snd e))"
  unfolding g_edges_edge_update set_map image_iff by (rule refl)

lemma has_edge_keys: "has_edge G a b \<longleftrightarrow> (\<exists>k \<in> set (map fst (g_edges G)). same_edge (a, b) k)"
  by (auto simp: has_edge_def)

lemma has_edge_edge_update [simp]: "has_edge (edge_update G x y f) a b = has_edge G a b"
  by (simp only: has_edge_keys keys_edge_update)

lemma wf_edge_update:
  assumes "wf_graph parsed G"
    and "\<And>e. e \<in> set (g_edges G) \<Longrightarrow> same_edge (a, b) (fst e) \<Longrightarrow>
            distinct (links (f (snd e))) \<and> (\<forall>l \<in> set (links (f (snd e))). link_ok parsed (fst e) l)"
  shows "wf_graph parsed (edge_update G a b f)"
proof -
  have "fst (fst e') \<in> set (nodes G) \<and> snd (fst e') \<in> set (nodes G) \<and> distinct (links (snd e')) \<and>
        (\<forall>l \<in> set (links (snd e')). link_ok parsed (fst e') l)"
    if "e' \<in> set (g_edges (edge_update G a b f))" for e'
  proof -
    from that obtain e where e: "e \<in> set (g_edges G)"
      "e' = (fst e, if same_edge (a, b) (fst e) then f (snd e) else snd e)"
      unfolding in_edge_update by blast
    from assms(1) e(1) have old: "fst (fst e) \<in> set (nodes G) \<and> snd (fst e) \<in> set (nodes G) \<and>
       distinct (links (snd e)) \<and> (\<forall>l \<in> set (links (snd e)). link_ok parsed (fst e) l)"
      unfolding wf_graph_def by blast
    show ?thesis
    proof (cases "same_edge (a, b) (fst e)")
      case True
      with assms(2)[OF e(1) True] old e(2) show ?thesis by simp
    next
      case False
      with old e(2) show ?thesis by simp
    qed
  qed
  with assms(1) show ?thesis
    unfolding wf_graph_def by simp
qed

lemma touch_node_props [simp]:
  "g_edges (touch_node n G) = g_edges G" "set (nodes (touch_node n G)) = insert n (set (nodes G))"
  "distinct (nodes (touch_node n G)) = distinct (nodes G)"
  by (auto simp: touch_node_def nodes_def)

lemma wf_touch_node: "wf_graph parsed G \<Longrightarrow> wf_graph parsed (touch_node n G)"
  unfolding wf_graph_def by auto

lemma has_edge_touch_node [simp]: "has_edge (touch_node n G) a b = has_edge G a b"
  by (simp add: has_edge_def)

lemma wf_add_edge: "wf_graph parsed G \<Longrightarrow> wf_graph parsed (add_edge G a b)"
proof -
  assume wf: "wf_graph parsed G"
  let ?G = "touch_node b (touch_node a G)"
  have wf': "wf_graph parsed ?G" using wf by (intro wf_touch_node)
  show ?thesis
  proof (cases "has_edge ?G a b")
    case True
    then have "add_edge G a b = edge_update ?G a b (\<lambda>d. d\<lparr>links := []\<rparr>)"
      by (simp add: add_edge_def Let_def)
    moreover have "wf_graph parsed (edge_update ?G a b (\<lambda>d. d\<lparr>links := []\<rparr>))"
      by (rule wf_edge_update[OF wf']) simp
    ultimately show ?thesis by simp
  next
    case False
    then have eq: "add_edge G a b = ?G\<lparr>g_edges := g_edges ?G @ [((a, b), \<lparr>links = [], capacity_kbps = None, mtus = None\<rparr>)]\<rparr>"
      by (simp add: add_edge_def Let_def)
    from False have "unord (a, b) \<notin> set (map (\<lambda>e. unord (fst e)) (g_edges ?G))"
      by (auto simp: has_edge_def same_edge_unord)
    moreover have "a \<in> set (nodes ?G)" "b \<in> set (nodes ?G)" by simp_all
    ultimately show ?thesis using wf' unfolding eq wf_graph_def
      by (auto simp: nodes_def link_ok_def)
  qed
qed

lemma has_edge_add_edge: "has_edge (add_edge G a b) a b"
  by (cases "has_edge (touch_node b (touch_node a G)) a b")
     (simp_all add: add_edge_def Let_def, simp add: has_edge_def same_edge_def)


lemma add_link_wf:
  assumes "wf_graph parsed G" "has_edge G a b" "a \<in> set (map fst parsed)" "b \<in> set (map fst parsed)"
  shows "\<exists>G'. add_link G a b (a, ai, b, bi) = Inr G' \<and> wf_graph parsed G'"
proof -
  have "wf_graph parsed (edge_update G a b (\<lambda>d. d\<lparr>links := List.insert (a, ai, b, bi) (links d)\<rparr>))"
  proof (rule wf_edge_update[OF assms(1)])
    fix e assume "e \<in> set (g_edges G)" "same_edge (a, b) (fst e)"
    with assms show "distinct (links ((snd e)\<lparr>links := List.insert (a, ai, b, bi) (links (snd e))\<rparr>)) \<and>
        (\<forall>l \<in> set (links ((snd e)\<lparr>links := List.insert (a, ai, b, bi) (links (snd e))\<rparr>)). link_ok parsed (fst e) l)"
      unfolding wf_graph_def by (auto simp: link_ok_def)
  qed
  with assms(2) show ?thesis by (simp add: add_link_def)
qed

lemma hint_step_wf:
  assumes "wf_graph parsed G" "a \<in> set (map fst parsed)"
  shows "\<exists>G'. hint_step parsed a intf G = Inr G' \<and> wf_graph parsed G'"
proof (cases "connects_to intf")
  case None
  with assms show ?thesis by (simp add: hint_step_def)
next
  case (Some ct)
  obtain b b_if where ct: "ct = (b, b_if)" by (cases ct)
  show ?thesis
  proof (cases "b \<in> set (map fst parsed)")
    case True
    have "\<exists>G'. add_link (add_edge G a b) a b (a, name intf, b, b_if) = Inr G' \<and> wf_graph parsed G'"
      by (rule add_link_wf[OF wf_add_edge[OF assms(1)] has_edge_add_edge assms(2) True])
    with True Some ct show ?thesis by (simp add: hint_step_def)
  next
    case False
    with Some ct assms show ?thesis by (simp add: hint_step_def)
  qed
qed

lemma explicit_pass_wf:
  assumes "wf_graph parsed G"
  shows "\<exists>G'. explicit_pass parsed G = Inr G' \<and> wf_graph parsed G'"
  unfolding explicit_pass_def
proof (rule fold_r_inv[where P = "wf_graph parsed", OF assms])
  fix x s assume x: "x \<in> set parsed" and s: "wf_graph parsed s"
  obtain a data where xa: "x = (a, data)" by (cases x)
  with x have a: "a \<in> set (map fst parsed)" by force
  have "\<exists>s'. fold_r (hint_step parsed a) (interfaces data) s = Inr s' \<and> wf_graph parsed s'"
    by (rule fold_r_inv[where P = "wf_graph parsed", OF s]) (rule hint_step_wf[OF _ a])
  then show "\<exists>s'. (case x of (a, data) \<Rightarrow> fold_r (hint_step parsed a) (interfaces data)) s = Inr s' \<and> wf_graph parsed s'"
    by (simp add: xa)
qed

lemma iface_list_keys: "(n, r) \<in> set (iface_list parsed) \<Longrightarrow> n \<in> set (map fst parsed)"
  by (force simp: iface_list_def)

lemma set_combinations2: "(x, y) \<in> set (combinations2 xs) \<Longrightarrow> x \<in> set xs \<and> y \<in> set xs"
  by (induction xs) auto

lemma infer_step_wf:
  assumes "wf_graph parsed G" "fst (fst p) \<in> set (map fst parsed)" "fst (snd p) \<in> set (map fst parsed)"
  shows "\<exists>G'. infer_step p G = Inr G' \<and> wf_graph parsed G'"
proof -
  obtain n1 i1 ip1 mtu1 bw1 n2 i2 ip2 mtu2 bw2 where p: "p = ((n1, i1, ip1, mtu1, bw1), (n2, i2, ip2, mtu2, bw2))"
    by (metis prod_cases5 surj_pair)
  let ?G = "if \<not> has_edge G n1 n2 then add_edge G n1 n2 else G"
  have "wf_graph parsed ?G" using assms(1) wf_add_edge by simp
  moreover have "has_edge ?G n1 n2" using has_edge_add_edge by simp
  ultimately have "\<exists>G'. add_link ?G n1 n2 (n1, i1, n2, i2) = Inr G' \<and> wf_graph parsed G'"
    using assms(2,3) unfolding p by (intro add_link_wf) simp_all
  with assms(1) show ?thesis unfolding p by simp
qed

lemma inferred_pass_wf:
  assumes "wf_graph parsed G"
  shows "\<exists>G'. inferred_pass parsed G = Inr G' \<and> wf_graph parsed G'"
  unfolding inferred_pass_def
proof (rule fold_r_inv[where P = "wf_graph parsed", OF assms])
  fix x s assume x: "x \<in> set (combinations2 (iface_list parsed))" and s: "wf_graph parsed s"
  obtain p q where pq: "x = (p, q)" by (cases x)
  with x have "p \<in> set (iface_list parsed)" "q \<in> set (iface_list parsed)"
    using set_combinations2[of p q "iface_list parsed"] by simp_all
  then have "fst p \<in> set (map fst parsed)" "fst q \<in> set (map fst parsed)"
    using iface_list_keys by (metis prod.collapse)+
  then show "\<exists>s'. infer_step x s = Inr s' \<and> wf_graph parsed s'"
    using infer_step_wf[OF s, of x] pq by simp
qed

lemma add_node_props:
  "g_edges (add_node G n at) = g_edges G" "nodes (add_node G n at) = (if n \<in> set (nodes G) then nodes G else nodes G @ [n])"
  by (auto simp: add_node_def nodes_def split: prod.splits)

lemma add_nodes_props:
  "g_edges G = [] \<Longrightarrow> distinct (nodes G) \<Longrightarrow>
     g_edges (add_nodes parsed G) = [] \<and> distinct (nodes (add_nodes parsed G))"
  unfolding add_nodes_def
  by (induction parsed arbitrary: G) (auto simp: add_node_props)

lemma wf_add_nodes: "wf_graph parsed (add_nodes parsed empty_graph)"
  using add_nodes_props[of empty_graph parsed]
  by (simp add: wf_graph_def empty_graph_def nodes_def)

section \<open>What \<open>G.edges(data=True)\<close> reports, and the annotation loop\<close>

lemma in_adjacency:
  "(x, d) \<in> set (adjacency G n) \<longleftrightarrow>
     ((n, x), d) \<in> set (g_edges G) \<or> (((x, n), d) \<in> set (g_edges G) \<and> x \<noteq> n)"
  by (auto simp: adjacency_def split: if_splits)

lemma edges_from_sub:
  "(u, v, d) \<in> set (edges_from G seen ns) \<Longrightarrow>
     (((u, v), d) \<in> set (g_edges G) \<or> ((v, u), d) \<in> set (g_edges G)) \<and> u \<in> set ns \<and> v \<notin> set seen"
proof (induction ns arbitrary: seen)
  case Nil
  then show ?case by simp
next
  case (Cons n ns)
  from Cons.prems consider
    (a) "u = n" "(v, d) \<in> set (adjacency G n)" "v \<notin> set seen"
    | (b) "(u, v, d) \<in> set (edges_from G (n # seen) ns)"
    by auto
  then show ?case
  proof cases
    case a
    then show ?thesis by (auto simp: in_adjacency)
  next
    case b
    from Cons.IH[OF b] show ?thesis by auto
  qed
qed

lemma edges_from_cover:
  "((u, v), d) \<in> set (g_edges G) \<Longrightarrow> u \<in> set ns \<Longrightarrow> v \<in> set ns \<Longrightarrow> u \<notin> set seen \<Longrightarrow> v \<notin> set seen \<Longrightarrow>
     (u, v, d) \<in> set (edges_from G seen ns) \<or> (v, u, d) \<in> set (edges_from G seen ns)"
proof (induction ns arbitrary: seen)
  case Nil
  then show ?case by simp
next
  case (Cons n ns)
  show ?case
  proof (cases "u = n")
    case True
    with Cons.prems have "(v, d) \<in> set (adjacency G n)" by (simp add: in_adjacency)
    with True Cons.prems show ?thesis by force
  next
    case un: False
    show ?thesis
    proof (cases "v = n")
      case True
      with un Cons.prems have "(u, d) \<in> set (adjacency G n)" by (simp add: in_adjacency)
      with True Cons.prems show ?thesis by force
    next
      case False
      with un Cons.prems have "(u, v, d) \<in> set (edges_from G (n # seen) ns) \<or> (v, u, d) \<in> set (edges_from G (n # seen) ns)"
        by (intro Cons.IH) auto
      then show ?thesis by auto
    qed
  qed
qed

lemma unord_inj:
  assumes "distinct (map (\<lambda>e. unord (fst e)) es)" "e \<in> set es" "e' \<in> set es" "same_edge (fst e) (fst e')"
  shows "e = e'"
  using assms by (auto simp: distinct_map same_edge_unord dest: inj_onD)

lemma map_of_keys: "a \<in> set (map fst parsed) \<Longrightarrow> \<exists>d. map_of parsed a = Some d"
  by (cases "map_of parsed a") (auto simp: map_of_eq_None_iff)

lemma resolve_bw_snoc:
  "resolve_bw (xs @ [x]) nm = (if name x = nm then bw x else resolve_bw xs nm)"
  by (simp add: resolve_bw_def)

lemma resolve_bw_last:
  "resolve_bw intfs nm =
     (case filter (\<lambda>x. name x = nm) intfs of [] \<Rightarrow> 100000 | x # xs \<Rightarrow> bw (last (x # xs)))"
proof (induction intfs rule: rev_induct)
  case Nil
  then show ?case by (simp add: resolve_bw_def)
next
  case (snoc x xs)
  then show ?case
    by (cases "filter (\<lambda>x. name x = nm) xs") (simp_all add: resolve_bw_snoc)
qed

lemma link_resolvable:
  assumes "link_ok parsed k l"
  shows "link_min_bw parsed l = Inr (link_bw parsed l)" "link_mtus parsed l = Inr (link_mtu_pair parsed l)"
proof -
  obtain a ai b bi where l: "l = (a, ai, b, bi)" by (cases l)
  from assms obtain da db where "map_of parsed a = Some da" "map_of parsed b = Some db"
    unfolding l link_ok_def using map_of_keys by (metis case_prod_conv)
  then show "link_min_bw parsed l = Inr (link_bw parsed l)" "link_mtus parsed l = Inr (link_mtu_pair parsed l)"
    by (simp_all add: l lookup_parsed_def link_bw_def link_mtu_pair_def side_bw_def side_mtu_def
        resolve_bw_last resolve_mtu_def)
qed

lemma fold_add_cap:
  "\<forall>l \<in> set ls. link_min_bw parsed l = Inr (link_bw parsed l) \<Longrightarrow>
     fold_r (add_cap parsed) ls c = Inr (c + sum_list (map (link_bw parsed) ls))"
  by (induction ls arbitrary: c) (simp_all add: add_cap_def)

lemma map_link_mtus:
  "\<forall>l \<in> set ls. link_mtus parsed l = Inr (link_mtu_pair parsed l) \<Longrightarrow>
     map_r (link_mtus parsed) ls = Inr (map (link_mtu_pair parsed) ls)"
  by (induction ls) simp_all

lemma annotate_edge_eq:
  assumes "\<forall>l \<in> set (links d0). link_min_bw parsed l = Inr (link_bw parsed l) \<and> link_mtus parsed l = Inr (link_mtu_pair parsed l)"
  shows "annotate_edge parsed (u, v, d0) H =
     Inr (edge_update H u v (\<lambda>x. x\<lparr>capacity_kbps := capacity_kbps (annotated parsed d0), mtus := mtus (annotated parsed d0)\<rparr>))"
  using assms by (simp add: fold_add_cap map_link_mtus annotated_def)

lemma annotated_same_links:
  "links x = links d0 \<Longrightarrow>
     x\<lparr>capacity_kbps := capacity_kbps (annotated parsed d0), mtus := mtus (annotated parsed d0)\<rparr> = annotated parsed x"
  by (simp add: annotated_def)

lemma annotated_idem [simp]: "annotated parsed (annotated parsed d) = annotated parsed d"
  by (simp add: annotated_def)

lemma links_annotated [simp]: "links (annotated parsed d) = links d"
  by (simp add: annotated_def)

lemma annotate_fold:
  assumes "\<forall>t \<in> set L. \<forall>l \<in> set (links (snd (snd t))).
              link_min_bw parsed l = Inr (link_bw parsed l) \<and> link_mtus parsed l = Inr (link_mtu_pair parsed l)"
    and "\<forall>t \<in> set L. \<forall>e \<in> set (g_edges H).
              same_edge (fst t, fst (snd t)) (fst e) \<longrightarrow> links (snd e) = links (snd (snd t))"
  shows "fold_r (annotate_edge parsed) L H =
     Inr (H\<lparr>g_edges := map (\<lambda>e. (fst e, if (\<exists>t \<in> set L. same_edge (fst t, fst (snd t)) (fst e))
                                       then annotated parsed (snd e) else snd e)) (g_edges H)\<rparr>)"
  using assms
proof (induction L arbitrary: H)
  case Nil
  then show ?case by simp
next
  case (Cons t L)
  obtain u v d0 where t: "t = (u, v, d0)" by (cases t)
  let ?upd = "\<lambda>x. x\<lparr>capacity_kbps := capacity_kbps (annotated parsed d0), mtus := mtus (annotated parsed d0)\<rparr>"
  let ?H1 = "edge_update H u v ?upd"
  have step: "annotate_edge parsed t H = Inr ?H1"
    unfolding t using Cons.prems(1) by (intro annotate_edge_eq) (simp add: t)
  have e1: "g_edges ?H1 = map (\<lambda>e. (fst e, if same_edge (u, v) (fst e) then annotated parsed (snd e) else snd e)) (g_edges H)"
    unfolding g_edges_edge_update
  proof (rule map_cong[OF refl])
    fix e assume "e \<in> set (g_edges H)"
    with Cons.prems(2) have "same_edge (u, v) (fst e) \<Longrightarrow> links (snd e) = links d0"
      by (auto simp: t)
    then show "(fst e, if same_edge (u, v) (fst e) then ?upd (snd e) else snd e) =
               (fst e, if same_edge (u, v) (fst e) then annotated parsed (snd e) else snd e)"
      by (simp add: annotated_same_links)
  qed
  have H1: "?H1 = H\<lparr>g_edges := g_edges ?H1\<rparr>"
    by (simp add: edge_update_def)
  have p2: "\<forall>t \<in> set L. \<forall>e \<in> set (g_edges ?H1).
              same_edge (fst t, fst (snd t)) (fst e) \<longrightarrow> links (snd e) = links (snd (snd t))"
    using Cons.prems(2) unfolding e1 by auto
  have "fold_r (annotate_edge parsed) L ?H1 =
     Inr (?H1\<lparr>g_edges := map (\<lambda>e. (fst e, if (\<exists>t \<in> set L. same_edge (fst t, fst (snd t)) (fst e))
                                       then annotated parsed (snd e) else snd e)) (g_edges ?H1)\<rparr>)"
    by (rule Cons.IH[OF _ p2]) (use Cons.prems(1) in simp)
  also have "?H1\<lparr>g_edges := map (\<lambda>e. (fst e, if (\<exists>t \<in> set L. same_edge (fst t, fst (snd t)) (fst e))
                                       then annotated parsed (snd e) else snd e)) (g_edges ?H1)\<rparr>
     = H\<lparr>g_edges := map (\<lambda>e. (fst e, if (\<exists>t \<in> set (t # L). same_edge (fst t, fst (snd t)) (fst e))
                                       then annotated parsed (snd e) else snd e)) (g_edges H)\<rparr>"
    by (subst H1) (simp add: e1 t comp_def)
  finally show ?case using step by simp
qed

lemma annotate_wf:
  assumes "wf_graph parsed G"
  shows "annotate parsed G = Inr (G\<lparr>g_edges := map (\<lambda>e. (fst e, annotated parsed (snd e))) (g_edges G)\<rparr>)"
proof -
  have sub: "\<exists>e \<in> set (g_edges G). same_edge (fst t, fst (snd t)) (fst e) \<and> snd e = snd (snd t)"
    if "t \<in> set (edges_data G)" for t
  proof -
    obtain u v d where t: "t = (u, v, d)" by (cases t)
    from that edges_from_sub[of u v d G "[]" "nodes G"]
    have "((u, v), d) \<in> set (g_edges G) \<or> ((v, u), d) \<in> set (g_edges G)"
      by (simp add: t edges_data_def)
    then show ?thesis by (force simp: t same_edge_def)
  qed
  have a1: "\<forall>t \<in> set (edges_data G). \<forall>l \<in> set (links (snd (snd t))).
              link_min_bw parsed l = Inr (link_bw parsed l) \<and> link_mtus parsed l = Inr (link_mtu_pair parsed l)"
  proof (intro ballI)
    fix t l assume "t \<in> set (edges_data G)" "l \<in> set (links (snd (snd t)))"
    with sub obtain e where "e \<in> set (g_edges G)" "l \<in> set (links (snd e))" by metis
    with assms have "link_ok parsed (fst e) l" unfolding wf_graph_def by blast
    then show "link_min_bw parsed l = Inr (link_bw parsed l) \<and> link_mtus parsed l = Inr (link_mtu_pair parsed l)"
      using link_resolvable by blast
  qed
  have a2: "\<forall>t \<in> set (edges_data G). \<forall>e \<in> set (g_edges G).
              same_edge (fst t, fst (snd t)) (fst e) \<longrightarrow> links (snd e) = links (snd (snd t))"
  proof (intro ballI impI)
    fix t e assume t: "t \<in> set (edges_data G)" and e: "e \<in> set (g_edges G)"
      and s: "same_edge (fst t, fst (snd t)) (fst e)"
    from sub[OF t] obtain e' where e': "e' \<in> set (g_edges G)" "same_edge (fst t, fst (snd t)) (fst e')"
      "snd e' = snd (snd t)" by blast
    from s e'(2) have "same_edge (fst e) (fst e')" by (simp add: same_edge_unord)
    with assms e e'(1) have "e = e'" unfolding wf_graph_def using unord_inj by blast
    with e'(3) show "links (snd e) = links (snd (snd t))" by simp
  qed
  have cov: "\<exists>t \<in> set (edges_data G). same_edge (fst t, fst (snd t)) (fst e)" if "e \<in> set (g_edges G)" for e
  proof -
    obtain u v d where e: "e = ((u, v), d)" by (metis prod.collapse)
    from assms that have "u \<in> set (nodes G)" "v \<in> set (nodes G)"
      unfolding wf_graph_def e by auto
    with that edges_from_cover[of u v d G "nodes G" "[]"]
    have "(u, v, d) \<in> set (edges_data G) \<or> (v, u, d) \<in> set (edges_data G)"
      by (simp add: e edges_data_def)
    then show ?thesis by (force simp: e same_edge_def)
  qed
  have "annotate parsed G =
     Inr (G\<lparr>g_edges := map (\<lambda>e. (fst e, if (\<exists>t \<in> set (edges_data G). same_edge (fst t, fst (snd t)) (fst e))
                                       then annotated parsed (snd e) else snd e)) (g_edges G)\<rparr>)"
    unfolding annotate_def by (rule annotate_fold[OF a1 a2])
  also have "map (\<lambda>e. (fst e, if (\<exists>t \<in> set (edges_data G). same_edge (fst t, fst (snd t)) (fst e))
                                       then annotated parsed (snd e) else snd e)) (g_edges G)
      = map (\<lambda>e. (fst e, annotated parsed (snd e))) (g_edges G)"
    by (rule map_cong[OF refl]) (use cov in simp)
  finally show ?thesis .
qed

section \<open>Edge capacity\<close>

lemma build_topology_result:
  "\<exists>G2. wf_graph parsed G2 \<and>
     build_topology parsed =
       Inr (G2\<lparr>g_edges := map (\<lambda>e. (fst e, annotated parsed (snd e))) (g_edges G2)\<rparr>)"
proof -
  from explicit_pass_wf[OF wf_add_nodes] obtain G1
    where G1: "explicit_pass parsed (add_nodes parsed empty_graph) = Inr G1" "wf_graph parsed G1"
    by blast
  from inferred_pass_wf[OF G1(2)] obtain G2
    where G2: "inferred_pass parsed G1 = Inr G2" "wf_graph parsed G2"
    by blast
  from G1(1) G2(1) annotate_wf[OF G2(2)] have "build_topology parsed =
       Inr (G2\<lparr>g_edges := map (\<lambda>e. (fst e, annotated parsed (snd e))) (g_edges G2)\<rparr>)"
    by (simp add: build_topology_def)
  with G2(2) show ?thesis by blast
qed

lemma capacity_annotated:
  "distinct (links d) \<Longrightarrow>
     capacity_kbps (annotated parsed d) =
       Some (let s = (\<Sum>l \<in> set (links d). link_bw parsed l) in if s \<noteq> 0 then s else 100000)"
  by (simp add: annotated_def Let_def sum_list_distinct_conv_sum_set)

text \<open>
  C2, as the code has it.  \<open>build_topology\<close> returns a graph, and on every edge of it,
  stored or reported by \<open>G.edges(data=True)\<close>, \<open>capacity_kbps\<close> is the sum over the edge's
  link set of the smaller of the two sides' bandwidths (100000 for a side whose
  interface name is not found on its device) when that sum is not 0, and 100000 when
  the sum is 0: the loop ends with \<open>cap if cap else 100000\<close>.
\<close>

theorem capacity_sum_or_default:
  "\<exists>G. build_topology parsed = Inr G \<and>
     (\<forall>e \<in> set (g_edges G).
        capacity_kbps (snd e) =
          Some (let s = (\<Sum>l \<in> set (links (snd e)). link_bw parsed l) in if s \<noteq> 0 then s else 100000)) \<and>
     (\<forall>t \<in> set (edges_data G).
        capacity_kbps (snd (snd t)) =
          Some (let s = (\<Sum>l \<in> set (links (snd (snd t))). link_bw parsed l) in if s \<noteq> 0 then s else 100000))"
proof -
  from build_topology_result[of parsed] obtain G2 where wf: "wf_graph parsed G2"
    and bt: "build_topology parsed = Inr (G2\<lparr>g_edges := map (\<lambda>e. (fst e, annotated parsed (snd e))) (g_edges G2)\<rparr>)"
    by blast
  let ?G = "G2\<lparr>g_edges := map (\<lambda>e. (fst e, annotated parsed (snd e))) (g_edges G2)\<rparr>"
  have stored: "capacity_kbps (snd e) =
          Some (let s = (\<Sum>l \<in> set (links (snd e)). link_bw parsed l) in if s \<noteq> 0 then s else 100000)"
    if "e \<in> set (g_edges ?G)" for e
  proof -
    from that obtain e0 where e0: "e0 \<in> set (g_edges G2)" "e = (fst e0, annotated parsed (snd e0))"
      by auto
    from wf e0(1) have "distinct (links (snd e0))" unfolding wf_graph_def by blast
    from capacity_annotated[OF this, of parsed] show ?thesis by (simp add: e0(2))
  qed
  have "capacity_kbps (snd (snd t)) =
          Some (let s = (\<Sum>l \<in> set (links (snd (snd t))). link_bw parsed l) in if s \<noteq> 0 then s else 100000)"
    if "t \<in> set (edges_data ?G)" for t
  proof -
    obtain u v d where t: "t = (u, v, d)" by (cases t)
    from that edges_from_sub[of u v d ?G "[]" "nodes ?G"]
    have "((u, v), d) \<in> set (g_edges ?G) \<or> ((v, u), d) \<in> set (g_edges ?G)"
      unfolding t edges_data_def by blast
    then show ?thesis
    proof
      assume "((u, v), d) \<in> set (g_edges ?G)"
      from stored[OF this] show ?thesis by (simp add: t)
    next
      assume "((v, u), d) \<in> set (g_edges ?G)"
      from stored[OF this] show ?thesis by (simp add: t)
    qed
  qed
  with stored bt show ?thesis by blast
qed

text \<open>The statement at the two routers that name each other: one link, capacity 100000.\<close>

theorem capacity_sum_or_default_witness:
  "\<exists>G. build_topology mutual_hints = Inr G \<and> map (\<lambda>e. capacity_kbps (snd e)) (g_edges G) = [Some 100000]"
proof -
  from capacity_sum_or_default[of mutual_hints] obtain G where bt: "build_topology mutual_hints = Inr G"
    and cap: "\<forall>e \<in> set (g_edges G).
        capacity_kbps (snd e) =
          Some (let s = (\<Sum>l \<in> set (links (snd e)). link_bw mutual_hints l) in if s \<noteq> 0 then s else 100000)"
    by blast
  have ev: "build_topology mutual_hints =
     Inr \<lparr>g_nodes = [(''R1'', Some router_attrs), (''R2'', Some router_attrs)],
          g_edges = [((''R1'', ''R2''),
                      \<lparr>links = [(''R2'', ''e0'', ''R1'', ''e0'')],
                       capacity_kbps = Some 100000, mtus = Some [(1500, 1500)]\<rparr>)]\<rparr>"
    by code_simp
  have lb: "link_bw mutual_hints (''R2'', ''e0'', ''R1'', ''e0'') = 100000"
    by code_simp
  from bt ev have G: "g_edges G = [((''R1'', ''R2''),
                      \<lparr>links = [(''R2'', ''e0'', ''R1'', ''e0'')],
                       capacity_kbps = Some 100000, mtus = Some [(1500, 1500)]\<rparr>)]"
    by auto
  from cap have "map (\<lambda>e. capacity_kbps (snd e)) (g_edges G) = [Some 100000]"
    unfolding G by (simp add: lb)
  with bt show ?thesis by (intro exI[of _ G]) simp
qed

text \<open>
  C2 as stated asks for the plain sum.  With \<open>bandwidth 0\<close> on the only link of an edge
  the sum of the minimums is 0, and the stored capacity is 100000.
\<close>

theorem capacity_zero_bandwidth:
  "build_topology zero_bandwidth =
     Inr \<lparr>g_nodes = [(''R1'', Some router_attrs), (''R2'', Some router_attrs)],
          g_edges = [((''R1'', ''R2''),
                      \<lparr>links = [(''R1'', ''e0'', ''R2'', ''e0'')],
                       capacity_kbps = Some 100000, mtus = Some [(1500, 1500)]\<rparr>)]\<rparr> \<and>
   (\<Sum>l \<in> set [(''R1'', ''e0'', ''R2'', ''e0'')]. link_bw zero_bandwidth l) = 0"
proof
  show "build_topology zero_bandwidth =
     Inr \<lparr>g_nodes = [(''R1'', Some router_attrs), (''R2'', Some router_attrs)],
          g_edges = [((''R1'', ''R2''),
                      \<lparr>links = [(''R1'', ''e0'', ''R2'', ''e0'')],
                       capacity_kbps = Some 100000, mtus = Some [(1500, 1500)]\<rparr>)]\<rparr>"
    by code_simp
  have "link_bw zero_bandwidth (''R1'', ''e0'', ''R2'', ''e0'') = 0"
    by code_simp
  then show "(\<Sum>l \<in> set [(''R1'', ''e0'', ''R2'', ''e0'')]. link_bw zero_bandwidth l) = 0"
    by simp
qed

section \<open>MTU mismatches\<close>

lemma wf_annotated:
  assumes "wf_graph parsed G"
  shows "wf_graph parsed (G\<lparr>g_edges := map (\<lambda>e. (fst e, annotated parsed (snd e))) (g_edges G)\<rparr>)"
  using assms unfolding wf_graph_def by (simp add: nodes_def comp_def)

lemma adjacency_Cons:
  "g_edges G = e # es \<Longrightarrow>
     adjacency G n =
       (if fst (fst e) = n then [(snd (fst e), snd e)] else if snd (fst e) = n then [(fst (fst e), snd e)] else [])
       @ adjacency (G\<lparr>g_edges := es\<rparr>) n"
  by (simp add: adjacency_def case_prod_beta)

lemma distinct_adjacency:
  "g_edges G = es \<Longrightarrow> distinct (map (\<lambda>e. unord (fst e)) es) \<Longrightarrow> distinct (map fst (adjacency G n))"
proof (induction es arbitrary: G)
  case Nil
  then show ?case by (simp add: adjacency_def)
next
  case (Cons e es)
  let ?G = "G\<lparr>g_edges := es\<rparr>"
  have ih: "distinct (map fst (adjacency ?G n))"
    using Cons.prems by (intro Cons.IH) simp_all
  have fresh: "x \<notin> fst ` set (adjacency ?G n)" if "unord (fst e) = {n, x}" for x
  proof
    assume "x \<in> fst ` set (adjacency ?G n)"
    then obtain d where "(x, d) \<in> set (adjacency ?G n)" by auto
    then have "((n, x), d) \<in> set es \<or> ((x, n), d) \<in> set es"
      by (auto simp: in_adjacency)
    then have "{n, x} \<in> set (map (\<lambda>e. unord (fst e)) es)"
      by (force simp: unord_def insert_commute)
    with Cons.prems(2) that show False by simp
  qed
  have u1: "fst (fst e) = n \<Longrightarrow> unord (fst e) = {n, snd (fst e)}"
    and u2: "snd (fst e) = n \<Longrightarrow> unord (fst e) = {n, fst (fst e)}"
    by (auto simp: unord_def)
  show ?case
    unfolding adjacency_Cons[OF Cons.prems(1)] using ih fresh[OF u1] fresh[OF u2]
    by auto
qed

lemma distinct_edges_from:
  assumes "distinct (map (\<lambda>e. unord (fst e)) (g_edges G))"
  shows "distinct ns \<Longrightarrow> distinct (map (\<lambda>t. unord (fst t, fst (snd t))) (edges_from G seen ns))"
proof (induction ns arbitrary: seen)
  case Nil
  then show ?case by simp
next
  case (Cons n ns)
  let ?A = "map (\<lambda>(nbr, d). (n, nbr, d)) (filter (\<lambda>(nbr, d). nbr \<notin> set seen) (adjacency G n))"
  let ?R = "edges_from G (n # seen) ns"
  let ?U = "\<lambda>t. unord (fst t, fst (snd t))"
  have dA: "distinct (map ?U ?A)"
  proof -
    have "map ?U ?A = map (\<lambda>x. {n, x}) (map fst (filter (\<lambda>(nbr, d). nbr \<notin> set seen) (adjacency G n)))"
      by (simp add: comp_def case_prod_beta unord_def)
    moreover have "distinct (map fst (filter (\<lambda>(nbr, d). nbr \<notin> set seen) (adjacency G n)))"
      using distinct_adjacency[OF refl assms, of n] by (simp add: distinct_map_filter)
    moreover have "inj (\<lambda>x. {n, x})"
      by (auto simp: inj_def doubleton_eq_iff)
    ultimately show ?thesis
      by (simp only: distinct_map) (blast intro: inj_on_subset)
  qed
  have dR: "distinct (map ?U ?R)"
    using Cons.prems by (intro Cons.IH) simp
  have nA: "n \<in> ?U t" if "t \<in> set ?A" for t
    using that by (auto simp: unord_def)
  have nR: "n \<notin> ?U t" if "t \<in> set ?R" for t
  proof -
    obtain u v d where t: "t = (u, v, d)" by (cases t)
    from that edges_from_sub[of u v d G "n # seen" ns] have "u \<in> set ns" "v \<noteq> n"
      by (auto simp: t)
    with Cons.prems show ?thesis by (auto simp: t unord_def)
  qed
  have "set (map ?U ?A) \<inter> set (map ?U ?R) = {}"
    using nA nR by fastforce
  with dA dR show ?case by simp
qed

lemma distinct_concat_keyed:
  assumes "distinct (map key ts)" "\<And>t. t \<in> set ts \<Longrightarrow> distinct (f t)"
    "\<And>t x. t \<in> set ts \<Longrightarrow> x \<in> set (f t) \<Longrightarrow> g x = key t"
  shows "distinct (concat (map f ts))"
  using assms
proof (induction ts)
  case Nil
  then show ?case by simp
next
  case (Cons t ts)
  have "set (f t) \<inter> set (concat (map f ts)) = {}"
  proof (rule ccontr)
    assume "set (f t) \<inter> set (concat (map f ts)) \<noteq> {}"
    then obtain x t' where x: "x \<in> set (f t)" "t' \<in> set ts" "x \<in> set (f t')" by auto
    then have "key t = key t'" using Cons.prems(3)[of t x] Cons.prems(3)[of t' x] by simp
    with x(2) Cons.prems(1) show False by auto
  qed
  moreover have "distinct (concat (map f ts))"
    using Cons.prems by (intro Cons.IH) auto
  ultimately show ?case using Cons.prems(2)[of t] by simp
qed

lemma edges_data_sub:
  assumes "t \<in> set (edges_data G)"
  shows "\<exists>e \<in> set (g_edges G). same_edge (fst t, fst (snd t)) (fst e) \<and> snd e = snd (snd t)"
proof -
  obtain u v d where t: "t = (u, v, d)" by (cases t)
  from assms edges_from_sub[of u v d G "[]" "nodes G"]
  have "((u, v), d) \<in> set (g_edges G) \<or> ((v, u), d) \<in> set (g_edges G)"
    by (simp add: t edges_data_def)
  then show ?thesis by (force simp: t same_edge_def)
qed

lemma edges_data_cover:
  assumes "wf_graph parsed G" "e \<in> set (g_edges G)"
  shows "\<exists>t \<in> set (edges_data G). same_edge (fst t, fst (snd t)) (fst e) \<and> snd (snd t) = snd e"
proof -
  obtain u v d where e: "e = ((u, v), d)" by (metis prod.collapse)
  from assms have "u \<in> set (nodes G)" "v \<in> set (nodes G)"
    unfolding wf_graph_def e by auto
  with assms(2) edges_from_cover[of u v d G "nodes G" "[]"]
  have "(u, v, d) \<in> set (edges_data G) \<or> (v, u, d) \<in> set (edges_data G)"
    by (simp add: e edges_data_def)
  then show ?thesis by (force simp: e same_edge_def)
qed

lemma distinct_edges_data:
  "wf_graph parsed G \<Longrightarrow> distinct (map (\<lambda>t. unord (fst t, fst (snd t))) (edges_data G))"
  unfolding edges_data_def wf_graph_def by (intro distinct_edges_from) simp_all

lemma link_key:
  assumes "wf_graph parsed G" "t \<in> set (edges_data G)" "l \<in> set (links (snd (snd t)))"
  shows "unord (fst l, fst (snd (snd l))) = unord (fst t, fst (snd t))"
proof -
  from edges_data_sub[OF assms(2)] obtain e where e: "e \<in> set (g_edges G)"
    "same_edge (fst t, fst (snd t)) (fst e)" "snd e = snd (snd t)" by blast
  with assms have "link_ok parsed (fst e) l" unfolding wf_graph_def by auto
  then have "same_edge (fst l, fst (snd (snd l))) (fst e)"
    by (auto simp: link_ok_def split: prod.splits)
  with e(2) show ?thesis by (simp add: same_edge_unord)
qed

lemma link_label_eq:
  assumes "wf_graph parsed G" "t \<in> set (edges_data G)" "l \<in> set (links (snd (snd t)))"
  shows "link_label G l = fst t @ ''-'' @ fst (snd t)"
proof -
  let ?P = "\<lambda>(u, v, d). l \<in> set (links d)"
  from assms(2,3) have "t \<in> set (filter ?P (edges_data G))"
    by (auto simp: case_prod_beta)
  then obtain t' ts where f: "filter ?P (edges_data G) = t' # ts"
    by (cases "filter ?P (edges_data G)") auto
  then have "t' \<in> set (filter ?P (edges_data G))" by simp
  then have t': "t' \<in> set (edges_data G)" "l \<in> set (links (snd (snd t')))"
    by (auto simp: case_prod_beta)
  from link_key[OF assms] link_key[OF assms(1) t']
  have "unord (fst t', fst (snd t')) = unord (fst t, fst (snd t))" by simp
  with distinct_edges_data[OF assms(1)] t'(1) assms(2) have "t' = t"
    by (auto simp: distinct_map dest: inj_onD)
  with f show ?thesis by (simp add: link_label_def case_prod_beta)
qed

lemma mtu_issues_eq:
  assumes wf: "wf_graph parsed G"
    and ann: "\<forall>e \<in> set (g_edges G). mtus (snd e) = Some (map (link_mtu_pair parsed) (links (snd e)))"
  shows "mtu_issues G =
     map (\<lambda>l. MtuMismatch (link_label G l) (fst (link_mtu_pair parsed l)) (snd (link_mtu_pair parsed l)))
       (concat (map (\<lambda>t. filter (\<lambda>l. fst (link_mtu_pair parsed l) \<noteq> snd (link_mtu_pair parsed l))
                              (links (snd (snd t)))) (edges_data G)))"
proof -
  let ?F = "\<lambda>l. MtuMismatch (link_label G l) (fst (link_mtu_pair parsed l)) (snd (link_mtu_pair parsed l))"
  let ?mis = "\<lambda>l. fst (link_mtu_pair parsed l) \<noteq> snd (link_mtu_pair parsed l)"
  have one: "(case t of (u, v, ed) \<Rightarrow>
        map (\<lambda>(ma, mb). MtuMismatch (u @ ''-'' @ v) ma mb)
            (filter (\<lambda>(ma, mb). ma \<noteq> mb) (case mtus ed of None \<Rightarrow> [] | Some ms \<Rightarrow> ms)))
      = map ?F (filter ?mis (links (snd (snd t))))"
    if t: "t \<in> set (edges_data G)" for t
  proof -
    obtain u v ed where tt: "t = (u, v, ed)" by (cases t)
    from edges_data_sub[OF t] ann have m: "mtus ed = Some (map (link_mtu_pair parsed) (links ed))"
      by (auto simp: tt)
    have "map (\<lambda>(ma, mb). MtuMismatch (u @ ''-'' @ v) ma mb)
            (filter (\<lambda>(ma, mb). ma \<noteq> mb) (map (link_mtu_pair parsed) (links ed)))
        = map (\<lambda>l. MtuMismatch (u @ ''-'' @ v) (fst (link_mtu_pair parsed l)) (snd (link_mtu_pair parsed l)))
            (filter ?mis (links ed))"
      by (simp add: filter_map comp_def case_prod_beta)
    also have "\<dots> = map ?F (filter ?mis (links ed))"
    proof (rule map_cong[OF refl])
      fix l assume "l \<in> set (filter ?mis (links ed))"
      then have "l \<in> set (links (snd (snd t)))" by (simp add: tt)
      from link_label_eq[OF wf t this] show
        "MtuMismatch (u @ ''-'' @ v) (fst (link_mtu_pair parsed l)) (snd (link_mtu_pair parsed l)) = ?F l"
        by (simp add: tt)
    qed
    finally show ?thesis by (simp add: tt m)
  qed
  have "mtu_issues G = concat (map (\<lambda>t. map ?F (filter ?mis (links (snd (snd t))))) (edges_data G))"
    unfolding mtu_issues_def by (rule arg_cong[where f = concat], rule map_cong[OF refl]) (rule one)
  then show ?thesis by (simp add: map_concat comp_def)
qed

lemma mismatching_links_distinct:
  assumes wf: "wf_graph parsed G"
  shows "distinct (concat (map (\<lambda>t. filter P (links (snd (snd t)))) (edges_data G)))"
proof (rule distinct_concat_keyed[where key = "\<lambda>t. unord (fst t, fst (snd t))"
      and g = "\<lambda>l. unord (fst l, fst (snd (snd l)))"])
  show "distinct (map (\<lambda>t. unord (fst t, fst (snd t))) (edges_data G))"
    by (rule distinct_edges_data[OF wf])
next
  fix t assume t: "t \<in> set (edges_data G)"
  from edges_data_sub[OF t] wf have "distinct (links (snd (snd t)))"
    unfolding wf_graph_def by auto
  then show "distinct (filter P (links (snd (snd t))))" by simp
next
  fix t x assume "t \<in> set (edges_data G)" "x \<in> set (filter P (links (snd (snd t))))"
  then show "unord (fst x, fst (snd (snd x))) = unord (fst t, fst (snd t))"
    using link_key[OF wf, of t x] by simp
qed

lemma mismatching_links_set:
  assumes wf: "wf_graph parsed G"
  shows "set (concat (map (\<lambda>t. filter P (links (snd (snd t)))) (edges_data G))) = {l \<in> graph_links G. P l}"
proof (intro set_eqI iffI)
  fix l assume "l \<in> set (concat (map (\<lambda>t. filter P (links (snd (snd t)))) (edges_data G)))"
  then obtain t where t: "t \<in> set (edges_data G)" "l \<in> set (links (snd (snd t)))" "P l" by auto
  from edges_data_sub[OF t(1)] obtain e where "e \<in> set (g_edges G)" "snd e = snd (snd t)"
    by blast
  with t(2) have "l \<in> graph_links G"
    unfolding graph_links_def by force
  with t(3) show "l \<in> {l \<in> graph_links G. P l}" by simp
next
  fix l assume "l \<in> {l \<in> graph_links G. P l}"
  then obtain e where e: "e \<in> set (g_edges G)" "l \<in> set (links (snd e))" "P l"
    unfolding graph_links_def by auto
  from edges_data_cover[OF wf e(1)] obtain t where "t \<in> set (edges_data G)" "snd (snd t) = snd e"
    by blast
  with e show "l \<in> set (concat (map (\<lambda>t. filter P (links (snd (snd t)))) (edges_data G)))"
    by force
qed

lemma filter_mtu_duplicate_ip: "filter is_mtu_mismatch (duplicate_ip_issues p) = []"
  by (auto simp: filter_empty_conv duplicate_ip_issues_def Let_def)
lemma filter_mtu_wrong_vlan: "filter is_mtu_mismatch (wrong_vlan_issues p) = []"
  by (auto simp: filter_empty_conv wrong_vlan_issues_def split: if_splits)
lemma filter_mtu_gateway: "filter is_mtu_mismatch (gateway_issues p) = []"
  by (auto simp: filter_empty_conv gateway_issues_def Let_def split: if_splits)
lemma filter_mtu_loops: "filter is_mtu_mismatch (loop_issues cb G) = []"
  by (auto simp: filter_empty_conv loop_issues_def Let_def)
lemma filter_mtu_bgp: "filter is_mtu_mismatch (bgp_issues p) = []"
  by (auto simp: filter_empty_conv bgp_issues_def)
lemma filter_mtu_mtu: "filter is_mtu_mismatch (mtu_issues G) = mtu_issues G"
  by (auto simp: filter_id_conv mtu_issues_def)

lemma filter_mtu_detect_issues:
  "filter is_mtu_mismatch (detect_issues cb parsed G) = mtu_issues G"
  by (simp add: detect_issues_def filter_mtu_duplicate_ip filter_mtu_wrong_vlan filter_mtu_gateway
      filter_mtu_loops filter_mtu_bgp filter_mtu_mtu)

text \<open>
  C4. \<open>build_topology\<close> returns a graph, and on it the detector emits exactly one
  \<open>mtu_mismatch\<close> Issue per underlying link whose two resolved MTUs differ, and none for
  a link whose MTUs are equal: the \<open>mtu_mismatch\<close> Issues, as a multiset, are the image
  of the set of Link tuples of the graph with differing MTUs, each tuple giving the
  Issue with the label of its edge and its two MTUs.
\<close>

theorem mtu_mismatch_once_per_link:
  "\<exists>G. build_topology parsed = Inr G \<and>
     mset (filter is_mtu_mismatch (detect_issues cycle_basis parsed G)) =
       image_mset (\<lambda>l. MtuMismatch (link_label G l) (fst (link_mtu_pair parsed l)) (snd (link_mtu_pair parsed l)))
         (mset_set {l \<in> graph_links G. fst (link_mtu_pair parsed l) \<noteq> snd (link_mtu_pair parsed l)})"
proof -
  from build_topology_result[of parsed] obtain G2 where wf2: "wf_graph parsed G2"
    and bt: "build_topology parsed = Inr (G2\<lparr>g_edges := map (\<lambda>e. (fst e, annotated parsed (snd e))) (g_edges G2)\<rparr>)"
    by blast
  let ?G = "G2\<lparr>g_edges := map (\<lambda>e. (fst e, annotated parsed (snd e))) (g_edges G2)\<rparr>"
  let ?mis = "\<lambda>l. fst (link_mtu_pair parsed l) \<noteq> snd (link_mtu_pair parsed l)"
  let ?F = "\<lambda>l. MtuMismatch (link_label ?G l) (fst (link_mtu_pair parsed l)) (snd (link_mtu_pair parsed l))"
  let ?LS = "concat (map (\<lambda>t. filter ?mis (links (snd (snd t)))) (edges_data ?G))"
  have wf: "wf_graph parsed ?G" by (rule wf_annotated[OF wf2])
  have ann: "\<forall>e \<in> set (g_edges ?G). mtus (snd e) = Some (map (link_mtu_pair parsed) (links (snd e)))"
    by (auto simp: annotated_def)
  have "filter is_mtu_mismatch (detect_issues cycle_basis parsed ?G) = map ?F ?LS"
    unfolding filter_mtu_detect_issues by (rule mtu_issues_eq[OF wf ann])
  then have "mset (filter is_mtu_mismatch (detect_issues cycle_basis parsed ?G)) = image_mset ?F (mset ?LS)"
    by simp
  also have "mset ?LS = mset_set (set ?LS)"
    by (rule mset_set_set[symmetric]) (rule mismatching_links_distinct[OF wf])
  also have "set ?LS = {l \<in> graph_links ?G. ?mis l}"
    by (rule mismatching_links_set[OF wf])
  finally show ?thesis using bt by blast
qed

text \<open>
  The statement at two routers on one subnet with MTU 1500 and 9000: one inferred link,
  one Issue.
\<close>

theorem mtu_mismatch_once_per_link_witness:
  "\<exists>G. build_topology mtu_1500_9000 = Inr G \<and>
     filter is_mtu_mismatch (detect_issues (\<lambda>G. []) mtu_1500_9000 G) = [MtuMismatch ''R1-R2'' 1500 9000]"
proof -
  define G0 where "G0 = \<lparr>g_nodes = [(''R1'', Some router_attrs), (''R2'', Some router_attrs)],
          g_edges = [((''R1'', ''R2''),
                      \<lparr>links = [(''R1'', ''e0'', ''R2'', ''e0'')],
                       capacity_kbps = Some 100000, mtus = Some [(1500, 9000)]\<rparr>)]\<rparr>"
  have ev: "build_topology mtu_1500_9000 = Inr G0"
    unfolding G0_def by code_simp
  from mtu_mismatch_once_per_link[of mtu_1500_9000 "\<lambda>G. []"] ev
  have m: "mset (filter is_mtu_mismatch (detect_issues (\<lambda>G. []) mtu_1500_9000 G0)) =
       image_mset (\<lambda>l. MtuMismatch (link_label G0 l) (fst (link_mtu_pair mtu_1500_9000 l)) (snd (link_mtu_pair mtu_1500_9000 l)))
         (mset_set {l \<in> graph_links G0. fst (link_mtu_pair mtu_1500_9000 l) \<noteq> snd (link_mtu_pair mtu_1500_9000 l)})"
    by auto
  have gl: "graph_links G0 = {(''R1'', ''e0'', ''R2'', ''e0'')}"
    by (simp add: graph_links_def G0_def)
  have mp: "link_mtu_pair mtu_1500_9000 (''R1'', ''e0'', ''R2'', ''e0'') = (1500, 9000)"
    by code_simp
  have lb: "link_label G0 (''R1'', ''e0'', ''R2'', ''e0'') = ''R1-R2''"
    unfolding G0_def by code_simp
  have "{l \<in> graph_links G0. fst (link_mtu_pair mtu_1500_9000 l) \<noteq> snd (link_mtu_pair mtu_1500_9000 l)}
       = {(''R1'', ''e0'', ''R2'', ''e0'')}"
    unfolding gl using mp by auto
  with m have "mset (filter is_mtu_mismatch (detect_issues (\<lambda>G. []) mtu_1500_9000 G0)) =
      {#MtuMismatch ''R1-R2'' 1500 9000#}"
    by (simp add: mp lb)
  then have "filter is_mtu_mismatch (detect_issues (\<lambda>G. []) mtu_1500_9000 G0) = [MtuMismatch ''R1-R2'' 1500 9000]"
    by (simp only: mset_single_iff)
  with ev show ?thesis by (intro exI[of _ G0]) simp
qed

section \<open>Loops\<close>

lemma symcl_mono: "A \<subseteq> B \<Longrightarrow> symcl A \<subseteq> symcl B"
  by (auto simp: symcl_def)

lemma sym_symcl: "sym (symcl E)"
  by (auto simp: symcl_def sym_def)

lemma conn_sym: "(a, b) \<in> (symcl E)\<^sup>* \<Longrightarrow> (b, a) \<in> (symcl E)\<^sup>*"
  using sym_rtrancl[OF sym_symcl, of E] by (auto dest: symD)

lemma in_symcl_unord: "e \<in> symcl E \<longleftrightarrow> (\<exists>f \<in> E. unord e = unord f)"
  by (cases e) (force simp: symcl_def unord_def doubleton_eq_iff)

lemma walk_from_append:
  "walk_from a (p @ q) c \<longleftrightarrow> (\<exists>b. walk_from a p b \<and> walk_from b q c)"
  by (induction p arbitrary: a) auto

lemma walk_conn: "walk_from a p b \<Longrightarrow> set p \<subseteq> R \<Longrightarrow> (a, b) \<in> R\<^sup>*"
proof (induction p arbitrary: a)
  case Nil
  then show ?case by simp
next
  case (Cons e p)
  then have "(a, snd e) \<in> R" "(snd e, b) \<in> R\<^sup>*" by auto
  then show ?case by (rule converse_rtrancl_into_rtrancl)
qed

lemma trail_exists:
  assumes "(a, b) \<in> (symcl E)\<^sup>*"
  shows "\<exists>p. walk_from a p b \<and> set p \<subseteq> symcl E \<and> distinct (map unord p)"
  using assms
proof (induction rule: rtrancl_induct)
  case base
  have "walk_from a [] a \<and> set [] \<subseteq> symcl E \<and> distinct (map unord [])" by simp
  then show ?case by blast
next
  case (step b c)
  then obtain p where p: "walk_from a p b" "set p \<subseteq> symcl E" "distinct (map unord p)" by blast
  show ?case
  proof (cases "unord (b, c) \<in> set (map unord p)")
    case False
    with p step.hyps(2) have "walk_from a (p @ [(b, c)]) c \<and> set (p @ [(b, c)]) \<subseteq> symcl E \<and>
        distinct (map unord (p @ [(b, c)]))"
      by (auto simp: walk_from_append)
    then show ?thesis by blast
  next
    case True
    then obtain f where "f \<in> set p" "unord f = unord (b, c)" by auto
    then obtain p1 p2 where sp: "p = p1 @ f # p2" by (meson split_list)
    from p(1) have w1: "walk_from a p1 (fst f)"
      unfolding sp by (auto simp: walk_from_append)
    from p(2,3) have t1: "set p1 \<subseteq> symcl E" "distinct (map unord p1)" "unord f \<notin> set (map unord p1)"
      "f \<in> symcl E"
      unfolding sp by auto
    from \<open>unord f = unord (b, c)\<close> consider "f = (b, c)" | "f = (c, b)"
      by (cases f) (auto simp: unord_def doubleton_eq_iff)
    then show ?thesis
    proof cases
      case 1
      with w1 t1 have "walk_from a (p1 @ [f]) c \<and> set (p1 @ [f]) \<subseteq> symcl E \<and> distinct (map unord (p1 @ [f]))"
        by (auto simp: walk_from_append)
      then show ?thesis by blast
    next
      case 2
      with w1 t1 have "walk_from a p1 c \<and> set p1 \<subseteq> symcl E \<and> distinct (map unord p1)"
        by simp
      then show ?thesis by blast
    qed
  qed
qed

lemma acyclic_insert:
  assumes "\<not> cyclic E" "(u, v) \<notin> (symcl E)\<^sup>*"
  shows "\<not> cyclic (insert (u, v) E)"
proof
  assume "cyclic (insert (u, v) E)"
  then obtain a p where p: "p \<noteq> []" "walk_from a p a" "distinct (map unord p)"
    "set p \<subseteq> symcl (insert (u, v) E)"
    unfolding cyclic_def by blast
  show False
  proof (cases "set p \<subseteq> symcl E")
    case True
    with p assms(1) show False unfolding cyclic_def by blast
  next
    case False
    then obtain g where g: "g \<in> set p" "g \<notin> symcl E" by blast
    with p(4) have guv: "g = (u, v) \<or> g = (v, u)"
      by (auto simp: symcl_def)
    from g(1) obtain p1 p2 where sp: "p = p1 @ g # p2" by (meson split_list)
    from p(2) have "walk_from a p1 (fst g)" "walk_from (snd g) p2 a"
      unfolding sp by (auto simp: walk_from_append)
    then have w: "walk_from (snd g) (p2 @ p1) (fst g)"
      by (auto simp: walk_from_append)
    have "e \<in> symcl E" if "e \<in> set (p2 @ p1)" for e
    proof -
      from that p(3) have ne: "unord e \<noteq> unord g" unfolding sp by auto
      from that p(4) have "e \<in> symcl (insert (u, v) E)" unfolding sp by auto
      then have "e \<in> symcl E \<or> e = (u, v) \<or> e = (v, u)" by (auto simp: symcl_def)
      with ne guv show ?thesis by (auto simp: unord_def insert_commute)
    qed
    then have "set (p2 @ p1) \<subseteq> symcl E" by blast
    from walk_conn[OF w this] have "(snd g, fst g) \<in> (symcl E)\<^sup>*" .
    with guv have "(u, v) \<in> (symcl E)\<^sup>*" using conn_sym by auto
    with assms(2) show False by simp
  qed
qed

lemma paths_sound: "p \<in> set (paths F u v) \<Longrightarrow> (u, v) \<in> (symcl (set F))\<^sup>*"
proof (induction F u v arbitrary: p rule: paths.induct)
  case (1 F u v)
  show ?case
  proof (cases "u = v")
    case True
    then show ?thesis by simp
  next
    case False
    with "1.prems" obtain e q where e: "e \<in> set F"
      and q: "(fst e = u \<and> q \<in> set (paths (remove1 e F) (snd e) v)) \<or>
              (fst e \<noteq> u \<and> snd e = u \<and> q \<in> set (paths (remove1 e F) (fst e) v))"
      by (subst (asm) paths.simps) (auto split: if_splits)
    have sub: "symcl (set (remove1 e F)) \<subseteq> symcl (set F)"
      by (rule symcl_mono) (rule set_remove1_subset)
    from q show ?thesis
    proof
      assume a: "fst e = u \<and> q \<in> set (paths (remove1 e F) (snd e) v)"
      with "1.IH"(1)[OF False e] have "(snd e, v) \<in> (symcl (set (remove1 e F)))\<^sup>*" by blast
      then have "(snd e, v) \<in> (symcl (set F))\<^sup>*" using rtrancl_mono[OF sub] by blast
      moreover from a e have "(u, snd e) \<in> symcl (set F)" by (auto simp: symcl_def)
      ultimately show ?thesis by (rule converse_rtrancl_into_rtrancl[rotated])
    next
      assume a: "fst e \<noteq> u \<and> snd e = u \<and> q \<in> set (paths (remove1 e F) (fst e) v)"
      with "1.IH"(2)[OF False e] have "(fst e, v) \<in> (symcl (set (remove1 e F)))\<^sup>*" by blast
      then have "(fst e, v) \<in> (symcl (set F))\<^sup>*" using rtrancl_mono[OF sub] by blast
      moreover from a e have "(u, fst e) \<in> symcl (set F)" by (force simp: symcl_def)
      ultimately show ?thesis by (rule converse_rtrancl_into_rtrancl[rotated])
    qed
  qed
qed

lemma concat_map_nonempty: "concat (map g xs) \<noteq> [] \<longleftrightarrow> (\<exists>x \<in> set xs. g x \<noteq> [])"
  by (induction xs) auto

lemma paths_complete: "(u, v) \<in> (symcl (set F))\<^sup>* \<Longrightarrow> paths F u v \<noteq> []"
proof (induction F u v rule: paths.induct)
  case (1 F u v)
  show ?case
  proof (cases "u = v")
    case True
    then show ?thesis by (simp add: paths.simps)
  next
    case False
    from trail_exists[OF "1.prems"] obtain p where p: "walk_from u p v" "set p \<subseteq> symcl (set F)"
      "distinct (map unord p)" by blast
    with False obtain e' p' where pp: "p = e' # p'" by (cases p) auto
    with p have e': "fst e' = u" "walk_from (snd e') p' v" "e' \<in> symcl (set F)"
      "unord e' \<notin> set (map unord p')" "set p' \<subseteq> symcl (set F)"
      by auto
    from e'(3) obtain f where f: "f \<in> set F" "unord e' = unord f"
      unfolding in_symcl_unord by blast
    have "set p' \<subseteq> symcl (set (remove1 f F))"
    proof
      fix g assume g: "g \<in> set p'"
      with e'(5) have "g \<in> symcl (set F)" by blast
      then obtain f' where f': "f' \<in> set F" "unord g = unord f'"
        unfolding in_symcl_unord by blast
      from g e'(4) f(2) f'(2) have "f' \<noteq> f" by auto
      with f'(1) have "f' \<in> set (remove1 f F)" by simp
      with f'(2) show "g \<in> symcl (set (remove1 f F))" unfolding in_symcl_unord by blast
    qed
    from walk_conn[OF e'(2) this] have c: "(snd e', v) \<in> (symcl (set (remove1 f F)))\<^sup>*" .
    from f(2) e'(1) consider (a) "fst f = u" "snd f = snd e'" | (b) "fst f \<noteq> u" "snd f = u" "fst f = snd e'"
      by (cases f; cases e') (auto simp: unord_def doubleton_eq_iff)
    then have "(if fst f = u then map (Cons u) (paths (remove1 f F) (snd f) v)
                 else if snd f = u then map (Cons u) (paths (remove1 f F) (fst f) v) else []) \<noteq> []"
    proof cases
      case a
      with "1.IH"(1)[OF False f(1)] c show ?thesis by simp
    next
      case b
      with "1.IH"(2)[OF False f(1)] c show ?thesis by simp
    qed
    with f(1) have "\<exists>x \<in> set F. (if fst x = u then map (Cons u) (paths (remove1 x F) (snd x) v)
                 else if snd x = u then map (Cons u) (paths (remove1 x F) (fst x) v) else []) \<noteq> []"
      by blast
    then have "concat (map (\<lambda>x. if fst x = u then map (Cons u) (paths (remove1 x F) (snd x) v)
                 else if snd x = u then map (Cons u) (paths (remove1 x F) (fst x) v) else []) F) \<noteq> []"
      by (simp only: concat_map_nonempty)
    with False show ?thesis
      by (subst paths.simps) (simp only: if_False not_False_eq_True)
  qed
qed

lemma fundamental_cycles_empty_iff:
  "\<not> cyclic (set F) \<Longrightarrow> distinct (map unord (F @ es)) \<Longrightarrow>
     fundamental_cycles F es \<noteq> [] \<longleftrightarrow> cyclic (set F \<union> set es)"
proof (induction es arbitrary: F)
  case Nil
  then show ?case by simp
next
  case (Cons e es)
  show ?case
  proof (cases "paths F (fst e) (snd e)")
    case Nil
    then have "(fst e, snd e) \<notin> (symcl (set F))\<^sup>*"
      using paths_complete by blast
    with Cons.prems(1) have "\<not> cyclic (set (e # F))"
      using acyclic_insert[of "set F" "fst e" "snd e"] by simp
    moreover from Cons.prems(2) have "distinct (map unord ((e # F) @ es))" by auto
    ultimately have "fundamental_cycles (e # F) es \<noteq> [] \<longleftrightarrow> cyclic (set (e # F) \<union> set es)"
      by (rule Cons.IH)
    with Nil show ?thesis by simp
  next
    case (Cons p ps)
    then have "p \<in> set (paths F (fst e) (snd e))" by simp
    from trail_exists[OF paths_sound[OF this]] obtain t where t: "walk_from (fst e) t (snd e)"
      "set t \<subseteq> symcl (set F)" "distinct (map unord t)" by blast
    have "unord (snd e, fst e) \<notin> set (map unord t)"
    proof
      assume "unord (snd e, fst e) \<in> set (map unord t)"
      then obtain g where "g \<in> set t" "unord g = unord e" by (auto simp: unord_def insert_commute)
      with t(2) have "g \<in> symcl (set F)" by blast
      with \<open>unord g = unord e\<close> obtain f where "f \<in> set F" "unord f = unord e"
        unfolding in_symcl_unord by metis
      then have "unord e \<in> set (map unord F)" by (metis image_eqI set_map)
      with Cons.prems(2) show False by simp
    qed
    with t have "walk_from (fst e) (t @ [(snd e, fst e)]) (fst e) \<and> distinct (map unord (t @ [(snd e, fst e)]))
        \<and> set (t @ [(snd e, fst e)]) \<subseteq> symcl (set F \<union> set (e # es))"
      by (auto simp: walk_from_append symcl_def)
    then have "cyclic (set F \<union> set (e # es))"
      unfolding cyclic_def by (intro exI[of _ "fst e"] exI[of _ "t @ [(snd e, fst e)]"]) simp
    with Cons show ?thesis by simp
  qed
qed

lemma has_edge_symcl: "has_edge G a b \<longleftrightarrow> (a, b) \<in> symcl (set (map fst (g_edges G)))"
proof -
  have "same_edge (a, b) k \<longleftrightarrow> (a, b) = k \<or> (b, a) = k" for k
    by (cases k) (auto simp: same_edge_def)
  then show ?thesis
    unfolding has_edge_def symcl_def by (auto simp: image_iff)
qed

lemma has_cycle_cyclic: "has_cycle G \<longleftrightarrow> cyclic (set (map fst (g_edges G)))"
proof -
  have "(\<forall>e \<in> set p. has_edge G (fst e) (snd e)) \<longleftrightarrow> set p \<subseteq> symcl (set (map fst (g_edges G)))" for p
    unfolding has_edge_symcl by auto
  then show ?thesis
    unfolding has_cycle_def cyclic_def by simp
qed

lemma nx_cycle_basis_nonempty_iff:
  assumes "distinct (map (\<lambda>e. unord (fst e)) (g_edges G))"
  shows "nx_cycle_basis G \<noteq> [] \<longleftrightarrow> has_cycle G"
proof -
  have "\<not> cyclic (set [])" by (simp add: cyclic_def symcl_def)
  moreover from assms have "distinct (map unord ([] @ map fst (g_edges G)))" by (simp add: comp_def)
  ultimately have "fundamental_cycles [] (map fst (g_edges G)) \<noteq> [] \<longleftrightarrow> cyclic (set [] \<union> set (map fst (g_edges G)))"
    by (rule fundamental_cycles_empty_iff)
  then show ?thesis by (simp add: nx_cycle_basis_def has_cycle_cyclic)
qed

lemma no_loops_in_duplicate_ip: "count_list (duplicate_ip_issues p) (NetworkLoops cs) = 0"
  by (auto simp: count_list_0_iff duplicate_ip_issues_def Let_def)
lemma no_loops_in_wrong_vlan: "count_list (wrong_vlan_issues p) (NetworkLoops cs) = 0"
  by (auto simp: count_list_0_iff wrong_vlan_issues_def split: if_splits)
lemma no_loops_in_gateway: "count_list (gateway_issues p) (NetworkLoops cs) = 0"
  by (auto simp: count_list_0_iff gateway_issues_def Let_def split: if_splits)
lemma no_loops_in_mtu: "count_list (mtu_issues G) (NetworkLoops cs) = 0"
  by (auto simp: count_list_0_iff mtu_issues_def)
lemma no_loops_in_bgp: "count_list (bgp_issues p) (NetworkLoops cs) = 0"
  by (auto simp: count_list_0_iff bgp_issues_def)

lemma count_loop_issues:
  "count_list (loop_issues cb G) (NetworkLoops cs) = (if cb G \<noteq> [] \<and> cs = cb G then 1 else 0)"
  by (auto simp: loop_issues_def Let_def)

lemma count_loops_detect_issues:
  "count_list (detect_issues cb parsed G) (NetworkLoops cs) = (if cb G \<noteq> [] \<and> cs = cb G then 1 else 0)"
  by (simp only: detect_issues_def count_list_append no_loops_in_duplicate_ip no_loops_in_wrong_vlan
      no_loops_in_gateway no_loops_in_mtu no_loops_in_bgp count_loop_issues add_0_right add_0)

text \<open>
  C6. \<open>build_topology\<close> returns a graph, and on it the detector emits a \<open>network_loops\<close>
  Issue exactly when the graph, taken as undirected, contains a cycle; it emits it once,
  and the Issue carries the whole list of basis cycles.  On a graph without a cycle (a
  tree, a forest) no such Issue is emitted.
\<close>

theorem network_loops_iff_cycle:
  "\<exists>G. build_topology parsed = Inr G \<and>
     count_list (detect_issues nx_cycle_basis parsed G) (NetworkLoops cs) =
       (if has_cycle G \<and> cs = nx_cycle_basis G then 1 else 0)"
proof -
  from build_topology_result[of parsed] obtain G2 where wf2: "wf_graph parsed G2"
    and bt: "build_topology parsed = Inr (G2\<lparr>g_edges := map (\<lambda>e. (fst e, annotated parsed (snd e))) (g_edges G2)\<rparr>)"
    by blast
  let ?G = "G2\<lparr>g_edges := map (\<lambda>e. (fst e, annotated parsed (snd e))) (g_edges G2)\<rparr>"
  have "wf_graph parsed ?G" by (rule wf_annotated[OF wf2])
  then have "distinct (map (\<lambda>e. unord (fst e)) (g_edges ?G))"
    unfolding wf_graph_def by blast
  then have "nx_cycle_basis ?G \<noteq> [] \<longleftrightarrow> has_cycle ?G"
    by (rule nx_cycle_basis_nonempty_iff)
  then have "count_list (detect_issues nx_cycle_basis parsed ?G) (NetworkLoops cs) =
       (if has_cycle ?G \<and> cs = nx_cycle_basis ?G then 1 else 0)"
    by (simp only: count_loops_detect_issues)
  with bt show ?thesis by blast
qed

text \<open>The statement at the ring of three routers: the graph has a cycle, one Issue with one 3-cycle.\<close>

theorem network_loops_iff_cycle_witness:
  "\<exists>G. build_topology ring3 = Inr G \<and> has_cycle G \<and>
     detect_issues nx_cycle_basis ring3 G = [NetworkLoops [[''R2'', ''R1'', ''R3'']]]"
proof -
  define G0 where "G0 = \<lparr>g_nodes = [(''R1'', Some router_attrs), (''R2'', Some router_attrs), (''R3'', Some router_attrs)],
        g_edges =
          [((''R1'', ''R2''),
            \<lparr>links = [(''R2'', ''e1'', ''R1'', ''e0'')],
               capacity_kbps = Some 100000, mtus = Some [(1500, 1500)]\<rparr>),
           ((''R1'', ''R3''),
            \<lparr>links = [(''R3'', ''e0'', ''R1'', ''e1'')],
               capacity_kbps = Some 100000, mtus = Some [(1500, 1500)]\<rparr>),
           ((''R2'', ''R3''),
            \<lparr>links = [(''R3'', ''e1'', ''R2'', ''e0'')],
               capacity_kbps = Some 100000, mtus = Some [(1500, 1500)]\<rparr>)]\<rparr>"
  have ev: "build_topology ring3 = Inr G0"
    unfolding G0_def by code_simp
  have iss: "detect_issues nx_cycle_basis ring3 G0 = [NetworkLoops [[''R2'', ''R1'', ''R3'']]]"
    unfolding G0_def by code_simp
  from network_loops_iff_cycle[of ring3 "[[''R2'', ''R1'', ''R3'']]"] ev
  have "count_list (detect_issues nx_cycle_basis ring3 G0) (NetworkLoops [[''R2'', ''R1'', ''R3'']]) =
       (if has_cycle G0 \<and> [[''R2'', ''R1'', ''R3'']] = nx_cycle_basis G0 then 1 else 0)"
    by auto
  then have "has_cycle G0"
    unfolding iss by (simp split: if_splits)
  with ev iss show ?thesis by (intro exI[of _ G0]) simp
qed

section \<open>The annotation loop never misses a device\<close>

text \<open>
  On every Link tuple of the built graph both device lookups of the annotation loop
  succeed, and the loop's values are the bandwidths and MTUs of the two sides: the
  defaults for a missing device in \<open>side_bw\<close> and \<open>side_mtu\<close> are never used.
\<close>

lemma built_links_resolve:
  "\<exists>G. build_topology parsed = Inr G \<and>
     (\<forall>l \<in> graph_links G. link_min_bw parsed l = Inr (link_bw parsed l) \<and>
                           link_mtus parsed l = Inr (link_mtu_pair parsed l))"
proof -
  from build_topology_result[of parsed] obtain G2 where wf2: "wf_graph parsed G2"
    and bt: "build_topology parsed = Inr (G2\<lparr>g_edges := map (\<lambda>e. (fst e, annotated parsed (snd e))) (g_edges G2)\<rparr>)"
    by blast
  let ?G = "G2\<lparr>g_edges := map (\<lambda>e. (fst e, annotated parsed (snd e))) (g_edges G2)\<rparr>"
  have wf: "wf_graph parsed ?G" by (rule wf_annotated[OF wf2])
  have "link_min_bw parsed l = Inr (link_bw parsed l) \<and> link_mtus parsed l = Inr (link_mtu_pair parsed l)"
    if "l \<in> graph_links ?G" for l
  proof -
    from that obtain e where "e \<in> set (g_edges ?G)" "l \<in> set (links (snd e))"
      unfolding graph_links_def by blast
    with wf have "link_ok parsed (fst e) l" unfolding wf_graph_def by blast
    then show ?thesis using link_resolvable by blast
  qed
  with bt show ?thesis by blast
qed

section \<open>What holds of the demand simulator\<close>

text \<open>
  A demand lands in the same bucket whichever way the edge is walked, and that bucket's
  key is a sorted pair.  On a graph with at least two nodes the simulator returns, and a
  trial without a path leaves the loads as they are.
\<close>

lemma sorted_pair_swap: "sorted_pair (b, a) = sorted_pair (a, b)"
  by (auto simp: sorted_pair_def)

lemma add_demand_direction: "add_demand demand el (b, a) = add_demand demand el (a, b)"
  by (simp add: add_demand_def sorted_pair_swap)

lemma sorted_pair_sorted: "fst (sorted_pair e) \<le> snd (sorted_pair e)"
  by (auto simp: sorted_pair_def)

lemma trial_no_path:
  "2 \<le> length (nodes G) \<Longrightarrow> shortest_path G (fst (rnd i)) (fst (snd (rnd i))) = None \<Longrightarrow>
     trial shortest_path rnd G i el = Inr el"
  by (simp add: trial_def case_prod_beta)

lemma estimate_endpoint_demands_returns:
  assumes "2 \<le> length (nodes G)"
  shows "\<exists>el. estimate_endpoint_demands shortest_path rnd G = Inr el"
proof -
  have "\<exists>s'. fold_r (trial shortest_path rnd G) [0..<6] (map (\<lambda>e. (e, 0)) (edges G)) = Inr s' \<and> True"
  proof (rule fold_r_inv[where P = "\<lambda>_. True"])
    fix x s
    from assms show "\<exists>s'. trial shortest_path rnd G x s = Inr s' \<and> True"
      by (auto simp: trial_def split: prod.splits option.splits)
  qed simp
  then show ?thesis by (simp add: estimate_endpoint_demands_def)
qed

section \<open>What holds of the multi-ASN rule\<close>

text \<open>
  The advisory Issue is emitted, once, exactly when more than one distinct ASN other
  than 0 appears across the devices.
\<close>

lemma set_asns: "set (asns parsed) = {a. a \<noteq> 0 \<and> (\<exists>e \<in> set parsed. asn (snd e) = Some a)}"
  by (force simp: asns_def image_iff)

lemma count_bgp_duplicate_ip: "count_list (duplicate_ip_issues p) (BgpRecommended r) = 0"
  by (simp add: count_list_0_iff no_bgp_in_duplicate_ip)
lemma count_bgp_wrong_vlan: "count_list (wrong_vlan_issues p) (BgpRecommended r) = 0"
  by (simp add: count_list_0_iff no_bgp_in_wrong_vlan)
lemma count_bgp_gateway: "count_list (gateway_issues p) (BgpRecommended r) = 0"
  by (simp add: count_list_0_iff no_bgp_in_gateway)
lemma count_bgp_mtu: "count_list (mtu_issues G) (BgpRecommended r) = 0"
  by (simp add: count_list_0_iff no_bgp_in_mtu)
lemma count_bgp_loops: "count_list (loop_issues cb G) (BgpRecommended r) = 0"
  by (simp add: count_list_0_iff no_bgp_in_loops)

lemma bgp_recommended_nonzero_asns:
  "count_list (detect_issues cb parsed G) (BgpRecommended r) =
     (if 1 < card {a. a \<noteq> 0 \<and> (\<exists>e \<in> set parsed. asn (snd e) = Some a)} \<and>
         r = ''Multiple autonomous systems detected'' then 1 else 0)"
proof -
  have "count_list (bgp_issues parsed) (BgpRecommended r) =
     (if 1 < card {a. a \<noteq> 0 \<and> (\<exists>e \<in> set parsed. asn (snd e) = Some a)} \<and>
         r = ''Multiple autonomous systems detected'' then 1 else 0)"
    unfolding bgp_issues_def set_asns by simp
  then show ?thesis
    by (simp only: detect_issues_def count_list_append count_bgp_duplicate_ip count_bgp_wrong_vlan
        count_bgp_gateway count_bgp_mtu count_bgp_loops add_0)
qed

end
